theory Spec2Isabelle
  imports Complex_Main
begin

section \<open>ImageSet.cpp: the filename grammar\<close>

text \<open>
  Every read of a \<open>std::string\<close> goes through a checked accessor, so that undefined
  behaviour of the C++ code is a value of the model. \<open>size_t\<close> is taken to be 64 bits
  wide and \<open>int\<close> 32 bits wide; a string is shorter than \<open>2 ^ 64 - 1\<close> characters.
\<close>

datatype error = OutOfBounds | OutOfRange | SignedOverflow

definition ebind :: "error + 'a \<Rightarrow> ('a \<Rightarrow> error + 'b) \<Rightarrow> error + 'b" where
  "ebind m f = (case m of Inl e \<Rightarrow> Inl e | Inr x \<Rightarrow> f x)"

text \<open>
  \<open>path[i]\<close> on a \<open>const std::string\<close>: the character for \<open>i < size()\<close>, the
  terminating null character for \<open>i = size()\<close>, undefined beyond.
\<close>

definition char_at :: "string \<Rightarrow> nat \<Rightarrow> error + char" where
  "char_at path i =
     (if i < length path then Inr (path ! i)
      else if i = length path then Inr (CHR 0x00)
      else Inl OutOfBounds)"

text \<open>\<open>path.substr(pos, n)\<close> throws \<open>std::out_of_range\<close> when \<open>pos > size()\<close>.\<close>

definition substr :: "string \<Rightarrow> nat \<Rightarrow> nat \<Rightarrow> error + string" where
  "substr path pos n =
     (if pos > length path then Inl OutOfRange else Inr (take n (drop pos path)))"

text \<open>\<open>path.substr(pos)\<close>: the rest of the string from \<open>pos\<close>.\<close>

definition substr_from :: "string \<Rightarrow> nat \<Rightarrow> error + string" where
  "substr_from path pos =
     (if pos > length path then Inl OutOfRange else Inr (drop pos path))"

text \<open>
  \<open>!path.compare(pos, len, s)\<close>: whether the \<open>len\<close> characters from \<open>pos\<close> are \<open>s\<close>;
  \<open>compare\<close> throws \<open>std::out_of_range\<close> when \<open>pos > size()\<close>.
\<close>

definition compare_is_zero :: "string \<Rightarrow> nat \<Rightarrow> nat \<Rightarrow> string \<Rightarrow> error + bool" where
  "compare_is_zero path pos len s =
     (if pos > length path then Inl OutOfRange else Inr (take len (drop pos path) = s))"

text \<open>Unsigned subtraction of \<open>size_t\<close> values wraps around modulo \<open>2 ^ 64\<close>.\<close>

definition size_sub :: "nat \<Rightarrow> nat \<Rightarrow> nat" where
  "size_sub a b = (if b \<le> a then a - b else 2 ^ 64 + a - b)"

definition INT_MAX :: int where
  "INT_MAX = 2 ^ 31 - 1"

text \<open>\<open>!(c < '0' || c > '9')\<close>\<close>

definition is_digit :: "char \<Rightarrow> bool" where
  "is_digit c = (48 \<le> (of_char c :: nat) \<and> (of_char c :: nat) \<le> 57)"

definition IsBlend :: "char \<Rightarrow> bool" where
  "IsBlend c = (c = CHR ''-'' \<or> c = CHR ''~'' \<or> c = CHR ''+'' \<or> c = CHR ''='')"

definition Is2x :: "string \<Rightarrow> error + bool" where
  "Is2x path =
     (if length path < 7 then Inr False
      else
        let pos = length path - 7 in
        ebind (char_at path pos) (\<lambda>c0.
          if c0 \<noteq> CHR ''@'' then Inr False
          else ebind (char_at path (pos + 1)) (\<lambda>c1.
            if c1 \<noteq> CHR ''2'' then Inr False
            else ebind (char_at path (pos + 2)) (\<lambda>c2. Inr (c2 = CHR ''x'')))))"

text \<open>
  The loop \<open>while(--pos) if(path[pos] < '0' || path[pos] > '9') break;\<close> of \<open>NameEnd\<close>,
  entered with the value of \<open>pos\<close> before the first decrement; the result is \<open>pos\<close>
  after the loop. \<open>NameEnd\<close> returns before the loop when \<open>pos\<close> would be 0 (the
  decrement would wrap to \<open>2 ^ 64 - 1\<close>, an index beyond any string).
\<close>

fun scan_back :: "string \<Rightarrow> nat \<Rightarrow> error + nat" where
  "scan_back path 0 = Inl OutOfBounds"
| "scan_back path (Suc n) =
     (if n = 0 then Inr 0
      else ebind (char_at path n) (\<lambda>c.
        if \<not> is_digit c then Inr n else scan_back path n))"

definition NameEnd :: "string \<Rightarrow> error + nat" where
  "NameEnd path =
     ebind (Is2x path) (\<lambda>is2x.
       let end = size_sub (length path) (if is2x then 7 else 4) in
       if end = 0 then Inr 0
       else ebind (scan_back path end) (\<lambda>pos.
         ebind (char_at path pos) (\<lambda>c.
           Inr (if IsBlend c then pos else end))))"

definition IsImage :: "string \<Rightarrow> error + bool" where
  "IsImage path =
     (if length path < 4 then Inr False
      else ebind (substr_from path (length path - 4)) (\<lambda>ext.
        Inr (ext = ''.png'' \<or> ext = ''.jpg'' \<or> ext = ''.PNG'' \<or> ext = ''.JPG'')))"

definition Name :: "string \<Rightarrow> error + string" where
  "Name path = ebind (NameEnd path) (\<lambda>e. substr path 0 e)"

text \<open>
  The loop \<open>for(++i; path[i] >= '0' && path[i] <= '9'; ++i) frame = (frame * 10) + (path[i] - '0');\<close>
  of \<open>FrameIndex\<close>, entered after the first increment. Signed overflow of the 32-bit
  \<open>frame\<close> is undefined behaviour and is reported as \<open>SignedOverflow\<close>.
\<close>

function frame_loop :: "string \<Rightarrow> nat \<Rightarrow> int \<Rightarrow> error + int" where
  "frame_loop path i frame =
     (case char_at path i of
        Inl e \<Rightarrow> Inl e
      | Inr c \<Rightarrow>
          if is_digit c then
            (let frame' = frame * 10 + (int (of_char c) - 48) in
             if frame' > INT_MAX then Inl SignedOverflow
             else frame_loop path (i + 1) frame')
          else Inr frame)"
  by pat_completeness auto
termination
  by (relation "measure (\<lambda>(path, i, frame). length path - i)")
    (auto simp add: char_at_def is_digit_def split: if_splits)

declare frame_loop.simps [simp del]

definition FrameIndex :: "string \<Rightarrow> error + int" where
  "FrameIndex path =
     ebind (NameEnd path) (\<lambda>i.
       ebind (char_at path i) (\<lambda>c.
         if \<not> IsBlend c then Inr 0 else frame_loop path (i + 1) 0))"

definition IsDeferred :: "string \<Rightarrow> error + bool" where
  "IsDeferred path =
     ebind (if length path \<ge> 5 then compare_is_zero path 0 5 ''land/'' else Inr False) (\<lambda>land.
       if land then Inr True else Inr False)"

definition IsMasked :: "string \<Rightarrow> error + bool" where
  "IsMasked path =
     ebind (if length path \<ge> 5 then compare_is_zero path 0 5 ''ship/'' else Inr False) (\<lambda>ship.
       if ship then Inr True
       else ebind (if length path \<ge> 9 then compare_is_zero path 0 9 ''asteroid/'' else Inr False)
         (\<lambda>asteroid. if asteroid then Inr True else Inr False))"

section \<open>Collaborators of ImageSet.cpp\<close>

text \<open>
  Modelled from the spec: the 2D vector arithmetic of \<open>Point\<close> (dot product, squared
  length, subtraction, scalar multiple), whose source is not part of the files at hand.
  The coordinates are C++ \<open>double\<close>s; they are modelled as real numbers, so rounding,
  overflow and underflow inside the operations of \<open>Point\<close> are not part of the model.
  What \<open>ImageSet.cpp\<close> itself computes with the results is rounded, see below.
\<close>

datatype Point = Point (X: real) (Y: real)

definition point_sub :: "Point \<Rightarrow> Point \<Rightarrow> Point" where
  "point_sub a b = Point (X a - X b) (Y a - Y b)"

definition point_scale :: "real \<Rightarrow> Point \<Rightarrow> Point" where
  "point_scale t a = Point (t * X a) (t * Y a)"

definition Dot :: "Point \<Rightarrow> Point \<Rightarrow> real" where
  "Dot a b = X a * X b + Y a * Y b"

definition LengthSquared :: "Point \<Rightarrow> real" where
  "LengthSquared a = Dot a a"

definition Length :: "Point \<Rightarrow> real" where
  "Length a = sqrt (LengthSquared a)"

text \<open>
  A floating-point value is a real number, an infinity or NaN: the distance computation
  starts from \<open>numeric_limits<float>::infinity()\<close> and divides without a guard. The two
  zeros of IEEE arithmetic are not distinguished.
\<close>

datatype efloat = Finite real | PosInf | NegInf | NaN

definition inf_of_sign :: "real \<Rightarrow> efloat" where
  "inf_of_sign s = (if s > 0 then PosInf else if s < 0 then NegInf else NaN)"

fun sgnf :: "efloat \<Rightarrow> real" where
  "sgnf (Finite a) = sgn a"
| "sgnf PosInf = 1"
| "sgnf NegInf = - 1"
| "sgnf NaN = 0"

text \<open>
  The exact results of the operations, before they are rounded to a format.
  \<open>a / b\<close> for finite operands, the divisor never negative (a sum of squares or its
  root): division by zero gives an infinity, or NaN for \<open>0 / 0\<close>.
\<close>

definition fdiv :: "real \<Rightarrow> real \<Rightarrow> efloat" where
  "fdiv a b = (if b \<noteq> 0 then Finite (a / b) else inf_of_sign a)"

definition fmul :: "efloat \<Rightarrow> efloat \<Rightarrow> efloat" where
  "fmul a b =
     (if a = NaN \<or> b = NaN then NaN
      else case (a, b) of
             (Finite x, Finite y) \<Rightarrow> Finite (x * y)
           | _ \<Rightarrow> inf_of_sign (sgnf a * sgnf b))"

fun fsqrt :: "efloat \<Rightarrow> efloat" where
  "fsqrt (Finite a) = (if a < 0 then NaN else Finite (sqrt a))"
| "fsqrt PosInf = PosInf"
| "fsqrt NegInf = NaN"
| "fsqrt NaN = NaN"

text \<open>\<open>copysign(a, s)\<close> for \<open>s\<close> one of \<open>-1.f\<close> and \<open>1.f\<close>.\<close>

fun fcopysign :: "efloat \<Rightarrow> real \<Rightarrow> efloat" where
  "fcopysign (Finite a) s = Finite (if s < 0 then - \<bar>a\<bar> else \<bar>a\<bar>)"
| "fcopysign PosInf s = (if s < 0 then NegInf else PosInf)"
| "fcopysign NegInf s = (if s < 0 then NegInf else PosInf)"
| "fcopysign NaN s = NaN"

text \<open>The comparisons \<open>a < b\<close> and \<open>a > b\<close> of a \<open>float\<close> with a finite value; false on NaN.\<close>

fun fless :: "efloat \<Rightarrow> real \<Rightarrow> bool" where
  "fless (Finite a) b = (a < b)"
| "fless NegInf b = True"
| "fless PosInf b = False"
| "fless NaN b = False"

fun fgreater :: "efloat \<Rightarrow> real \<Rightarrow> bool" where
  "fgreater (Finite a) b = (a > b)"
| "fgreater PosInf b = True"
| "fgreater NegInf b = False"
| "fgreater NaN b = False"

text \<open>The comparison \<open>a > b\<close> of two \<open>float\<close>s; false when one of them is NaN.\<close>

definition fgt :: "efloat \<Rightarrow> efloat \<Rightarrow> bool" where
  "fgt a b =
     (case (a, b) of
        (Finite x, Finite y) \<Rightarrow> x > y
      | (Finite x, NegInf) \<Rightarrow> True
      | (PosInf, Finite y) \<Rightarrow> True
      | (PosInf, NegInf) \<Rightarrow> True
      | _ \<Rightarrow> False)"

subsection \<open>Rounding to \<open>double\<close> and to \<open>float\<close>\<close>

text \<open>
  The variables \<open>t\<close>, \<open>distSquared\<close>, \<open>closestSquared\<close>, \<open>sign\<close> and \<open>normalize\<close> of
  \<open>GenerateDistances\<close> and the entries of \<open>distances\<close> are \<open>float\<close>s, IEEE 754 binary32;
  the quotients assigned to \<open>t\<close> and \<open>normalize\<close> are computed in \<open>double\<close>, binary64, and
  converted. Every operation gives the exact result rounded once to the nearest value
  of its format, a tie to the value with the even significand.

  \<open>round_half_even\<close> is the integer nearest to a real number. \<open>binary_round prec emin emax\<close>
  rounds a real number to the format with \<open>prec\<close> significand bits and exponents from
  \<open>emin\<close> to \<open>emax\<close>: the spacing of the format at \<open>x\<close> is \<open>2\<close> to the power
  \<open>max \<lfloor>log 2 \<bar>x\<bar>\<rfloor> emin - prec + 1\<close> (subnormal below \<open>2\<close> to the \<open>emin\<close>), and a result
  of magnitude \<open>2\<close> to the \<open>emax + 1\<close> or more is an infinity.
\<close>

definition round_half_even :: "real \<Rightarrow> int" where
  "round_half_even y =
     (let f = \<lfloor>y\<rfloor>; d = y - of_int f
      in if d < 1 / 2 then f else if d > 1 / 2 then f + 1
         else if even f then f else f + 1)"

definition binary_round :: "nat \<Rightarrow> int \<Rightarrow> int \<Rightarrow> real \<Rightarrow> efloat" where
  "binary_round prec emin emax x =
     (if x = 0 then Finite 0
      else
        let e = max \<lfloor>log 2 \<bar>x\<bar>\<rfloor> emin;
            ulp = 2 powr of_int (e - int prec + 1);
            r = of_int (round_half_even (x / ulp)) * ulp
        in if \<bar>r\<bar> \<ge> 2 powr of_int (emax + 1)
           then (if x > 0 then PosInf else NegInf)
           else Finite r)"

definition to_double :: "real \<Rightarrow> efloat" where
  "to_double x = binary_round 53 (- 1022) 1023 x"

definition to_float :: "real \<Rightarrow> efloat" where
  "to_float x = binary_round 24 (- 126) 127 x"

fun to_double_e :: "efloat \<Rightarrow> efloat" where
  "to_double_e (Finite x) = to_double x"
| "to_double_e PosInf = PosInf"
| "to_double_e NegInf = NegInf"
| "to_double_e NaN = NaN"

fun to_float_e :: "efloat \<Rightarrow> efloat" where
  "to_float_e (Finite x) = to_float x"
| "to_float_e PosInf = PosInf"
| "to_float_e NegInf = NegInf"
| "to_float_e NaN = NaN"

text \<open>
  Modelled from the spec: a \<open>Mask\<close> holds the polygon outline of one frame (empty when
  default-constructed); its construction from a pixel buffer and its point-in-polygon
  test \<open>Contains\<close> are collaborators, as are the operations of \<open>ImageBuffer\<close>.
  \<open>Read\<close> decodes one path into one frame of a buffer and reports success.
\<close>

datatype Mask = Mask (Outline: "Point list")

record 'b collaborators =
  Clear :: "nat \<Rightarrow> 'b \<Rightarrow> 'b"
  Read :: "string \<Rightarrow> nat \<Rightarrow> 'b \<Rightarrow> bool \<times> 'b"
  Width :: "'b \<Rightarrow> nat"
  Height :: "'b \<Rightarrow> nat"
  Create :: "'b \<Rightarrow> nat \<Rightarrow> Mask"
  Contains :: "Mask \<Rightarrow> Point \<Rightarrow> bool"

section \<open>ImageSet.cpp: the distance field\<close>

text \<open>
  One iteration of the loop over the outline: the new value of \<open>closestSquared\<close>.
  \<open>dist.Dot(segment) / segment.LengthSquared()\<close> is a division of \<open>double\<close>s, converted
  to the \<open>float t\<close>; \<open>t * segment\<close> and \<open>dist -= ...\<close> are operations of \<open>Point\<close> on
  \<open>double\<close>s; \<open>dist.LengthSquared()\<close> is converted to the \<open>float distSquared\<close>.
\<close>

definition segment_step :: "Point \<Rightarrow> Point \<Rightarrow> Point \<Rightarrow> efloat \<Rightarrow> efloat" where
  "segment_step p prev cur closestSquared =
     (let segment = point_sub cur prev;
          dist = point_sub p prev;
          t = to_float_e (to_double_e (fdiv (Dot dist segment) (LengthSquared segment)))
      in if fless t 1 then
           (let dist' = (if fgreater t 0
                         then (case t of Finite tv \<Rightarrow> point_sub dist (point_scale tv segment)
                                       | _ \<Rightarrow> dist)
                         else dist);
                distSquared = to_float (LengthSquared dist')
            in if fgt closestSquared distSquared then distSquared
               else closestSquared)
         else closestSquared)"

text \<open>\<open>for(const Point &cur : mask.Outline()) { ...; prev = cur; }\<close>\<close>

fun segment_loop :: "Point \<Rightarrow> Point \<Rightarrow> Point list \<Rightarrow> efloat \<Rightarrow> efloat" where
  "segment_loop p prev [] closestSquared = closestSquared"
| "segment_loop p prev (cur # rest) closestSquared =
     segment_loop p cur rest (segment_step p prev cur closestSquared)"

text \<open>
  The body of the loops over \<open>y\<close> and \<open>x\<close>: the value stored for one pixel. \<open>x\<close> and
  \<open>y\<close> are \<open>int\<close>s and the coordinates of \<open>center\<close> halves of \<open>int\<close>s, so the
  differences \<open>x - center.X()\<close> and \<open>y - center.Y()\<close> are exact in \<open>double\<close>. \<open>sqrt\<close>,
  \<open>copysign\<close> and the product take \<open>float\<close>s and give \<open>float\<close>s.
\<close>

definition pixel_value ::
  "'b collaborators \<Rightarrow> Mask \<Rightarrow> Point \<Rightarrow> efloat \<Rightarrow> nat \<Rightarrow> nat \<Rightarrow> efloat" where
  "pixel_value ops mask_v center normalize_f x y =
     (let p = Point (real x - X center) (real y - Y center);
          sign = (if Contains ops mask_v p then - 1 else 1);
          closestSquared = segment_loop p (last (Outline mask_v)) (Outline mask_v) PosInf
      in to_float_e (fmul (fcopysign (to_float_e (fsqrt closestSquared)) sign) normalize_f))"

text \<open>
  The loops write through \<open>ptr\<close>, here an index into \<open>distances\<close>, and advance it:
  \<open>*ptr++ = ...\<close>.
\<close>

definition x_loop ::
  "'b collaborators \<Rightarrow> Mask \<Rightarrow> Point \<Rightarrow> efloat \<Rightarrow> nat \<Rightarrow> nat
     \<Rightarrow> efloat list \<times> nat \<Rightarrow> efloat list \<times> nat" where
  "x_loop ops mask_v center normalize_f width y =
     fold (\<lambda>x (distances, ptr).
            (distances[ptr := pixel_value ops mask_v center normalize_f x y], ptr + 1))
          [0..<width]"

definition y_loop ::
  "'b collaborators \<Rightarrow> Mask \<Rightarrow> Point \<Rightarrow> efloat \<Rightarrow> nat \<Rightarrow> nat
     \<Rightarrow> efloat list \<times> nat \<Rightarrow> efloat list \<times> nat" where
  "y_loop ops mask_v center normalize_f width height =
     fold (\<lambda>y. x_loop ops mask_v center normalize_f width y) [0..<height]"

definition mask_step ::
  "'b collaborators \<Rightarrow> Point \<Rightarrow> efloat \<Rightarrow> nat \<Rightarrow> nat \<Rightarrow> Mask
     \<Rightarrow> efloat list \<times> nat \<Rightarrow> efloat list \<times> nat" where
  "mask_step ops center normalize_f width height mask_v st =
     (if Outline mask_v = [] then (fst st, snd st + width * height)
      else y_loop ops mask_v center normalize_f width height st)"

definition GenerateDistances ::
  "'b collaborators \<Rightarrow> 'b \<Rightarrow> Mask list \<Rightarrow> efloat list \<Rightarrow> efloat list" where
  "GenerateDistances ops image_b masks distances =
     (if masks = [] then distances
      else
        let width = Width ops image_b div 2;
            height = Height ops image_b div 2;
            center = Point (0.5 * real width) (0.5 * real height);
            normalize_f = to_float_e (to_double_e
              (fdiv 2 (Length (Point (real (Width ops image_b)) (real (Height ops image_b))))));
            assigned = replicate (width * height * length masks) PosInf
        in fst (fold (mask_step ops center normalize_f width height) masks (assigned, 0)))"

section \<open>ImageSet.cpp: the image set\<close>

text \<open>
  The members of \<open>ImageSet\<close>; \<open>paths[0]\<close> and \<open>paths[1]\<close> are the path sequences of
  the standard and of the @2x resolution, \<open>buffer[0]\<close> and \<open>buffer[1]\<close> their pixels.
\<close>

record 'b ImageSet =
  name :: string
  paths_1x :: "string list"
  paths_2x :: "string list"
  buffer_1x :: 'b
  buffer_2x :: 'b
  masks :: "Mask list"
  distances :: "efloat list"

text \<open>\<open>v.resize(n)\<close> of a \<open>std::vector\<close>, with the default-constructed element \<open>d\<close>.\<close>

definition resize :: "nat \<Rightarrow> 'a \<Rightarrow> 'a list \<Rightarrow> 'a list" where
  "resize n d v = take n v @ replicate (n - length v) d"

definition Add :: "string \<Rightarrow> 'b ImageSet \<Rightarrow> error + 'b ImageSet" where
  "Add path s =
     ebind (Is2x path) (\<lambda>is2x.
       ebind (FrameIndex path) (\<lambda>index.
         let frame = nat index;
             paths = (if is2x then paths_2x s else paths_1x s);
             paths' = (if length paths \<le> frame then resize (frame + 1) [] paths else paths);
             paths'' = paths'[frame := path]
         in Inr (if is2x then s\<lparr>paths_2x := paths''\<rparr> else s\<lparr>paths_1x := paths''\<rparr>)))"

text \<open>The lines \<open>Check\<close> writes to \<open>cerr\<close>, in order.\<close>

datatype warning = ExtraFrames nat | MissingFrame nat | Missing2xFrame nat

definition check_frame :: "'b ImageSet \<Rightarrow> nat \<Rightarrow> warning list" where
  "check_frame s i =
     (if paths_1x s ! i = [] then [MissingFrame i] else []) @
     (if paths_2x s \<noteq> [] \<and> (i \<ge> length (paths_2x s) \<or> paths_2x s ! i = [])
      then [Missing2xFrame i] else [])"

definition Check :: "'b ImageSet \<Rightarrow> warning list" where
  "Check s =
     (if length (paths_2x s) > length (paths_1x s)
      then [ExtraFrames (length (paths_2x s) - length (paths_1x s))] else []) @
     concat (map (check_frame s) [0..<length (paths_1x s)])"

text \<open>The calls \<open>Load\<close> makes to its collaborators, in order.\<close>

datatype event = ReadCall bool string nat | CreateCall nat

text \<open>
  \<open>for(size_t i = 0; i < frames; ++i)
      if(buffer[0].Read(paths[0][i], i) && makeMasks) masks[i].Create(buffer[0], i);\<close>
\<close>

function load_1x ::
  "'b collaborators \<Rightarrow> bool \<Rightarrow> string list \<Rightarrow> nat \<Rightarrow> nat
     \<Rightarrow> 'b \<times> Mask list \<times> event list \<Rightarrow> 'b \<times> Mask list \<times> event list" where
  "load_1x ops makeMasks paths frames i (buffer, masks_v, trace) =
     (if i < frames then
        (let (ok, buffer') = Read ops (paths ! i) i buffer;
             trace' = trace @ [ReadCall False (paths ! i) i]
         in if ok \<and> makeMasks
            then load_1x ops makeMasks paths frames (i + 1)
                   (buffer', masks_v[i := Create ops buffer' i], trace' @ [CreateCall i])
            else load_1x ops makeMasks paths frames (i + 1) (buffer', masks_v, trace'))
      else (buffer, masks_v, trace))"
  by pat_completeness auto
termination
  by (relation "measure (\<lambda>(ops, makeMasks, paths, frames, i, st). frames - i)") auto

declare load_1x.simps [simp del]

text \<open>
  \<open>for(size_t i = 0; i < frames && i < paths[1].size(); ++i)
      buffer[1].Read(paths[1][i], i);\<close>
\<close>

function load_2x ::
  "'b collaborators \<Rightarrow> string list \<Rightarrow> nat \<Rightarrow> nat \<Rightarrow> 'b \<times> event list \<Rightarrow> 'b \<times> event list" where
  "load_2x ops paths frames i (buffer, trace) =
     (if i < frames \<and> i < length paths then
        (let (ok, buffer') = Read ops (paths ! i) i buffer
         in load_2x ops paths frames (i + 1) (buffer', trace @ [ReadCall True (paths ! i) i]))
      else (buffer, trace))"
  by pat_completeness auto
termination
  by (relation "measure (\<lambda>(ops, paths, frames, i, st). frames - i)") auto

declare load_2x.simps [simp del]

definition Load :: "'b collaborators \<Rightarrow> 'b ImageSet \<Rightarrow> error + ('b ImageSet \<times> event list)" where
  "Load ops s =
     (let frames = length (paths_1x s);
          buffer0 = Clear ops frames (buffer_1x s);
          buffer1 = Clear ops frames (buffer_2x s)
      in ebind (IsMasked (name s)) (\<lambda>makeMasks.
           let masks0 = (if makeMasks then resize frames (Mask []) (masks s) else masks s);
               (buffer0', masks', trace) =
                  load_1x ops makeMasks (paths_1x s) frames 0 (buffer0, masks0, []);
               (buffer1', trace') = load_2x ops (paths_2x s) frames 0 (buffer1, trace)
           in Inr (s\<lparr>buffer_1x := buffer0', buffer_2x := buffer1', masks := masks',
                      distances := GenerateDistances ops buffer0' masks' (distances s)\<rparr>,
                   trace')))"



section \<open>Notions used to state the properties\<close>

subsection \<open>Filenames\<close>

text \<open>The value \<open>path[i] - '0'\<close> of a digit, and of a run of digits read from the left.\<close>

definition digit_value :: "char \<Rightarrow> int" where
  "digit_value c = int (of_char c) - 48"

definition digits_val :: "string \<Rightarrow> int" where
  "digits_val ds = foldl (\<lambda>frame c. frame * 10 + digit_value c) 0 ds"

text \<open>
  The frame suffix that \<open>FrameIndex\<close> parses: the blend-mode marker at \<open>NameEnd\<close> and
  the run of digits its loop consumes; \<open>None\<close> when there is no marker at \<open>NameEnd\<close>.
\<close>

definition frame_suffix :: "string \<Rightarrow> (char \<times> string) option" where
  "frame_suffix path =
     (case NameEnd path of
        Inl e \<Rightarrow> None
      | Inr i \<Rightarrow> (if i < length path \<and> IsBlend (path ! i)
                 then Some (path ! i, takeWhile is_digit (drop (i + 1) path))
                 else None))"

text \<open>The decimal digits of a number, without leading zeros.\<close>

fun decimal :: "nat \<Rightarrow> string" where
  "decimal n =
     (if n < 10 then [char_of (48 + n)]
      else decimal (n div 10) @ [char_of (48 + n mod 10)])"

declare decimal.simps [simp del]

text \<open>A run of digits that is the decimal numeral of its value: not empty, no leading zero.\<close>

definition canonical_digits :: "string \<Rightarrow> bool" where
  "canonical_digits ds = (ds \<noteq> [] \<and> (hd ds \<noteq> CHR ''0'' \<or> length ds = 1))"

definition is2x_marker :: "string \<Rightarrow> bool" where
  "is2x_marker p = (7 \<le> length p \<and> take 3 (drop (length p - 7) p) = ''@2x'')"

text \<open>The value of \<open>end\<close> in \<open>NameEnd\<close> for a path of at least four characters.\<close>

definition region_end :: "string \<Rightarrow> nat" where
  "region_end p = length p - (if is2x_marker p then 7 else 4)"

subsection \<open>Loading\<close>

text \<open>The constructor: no paths, default-constructed buffers, no masks, no distances.\<close>

definition new_ImageSet :: "string \<Rightarrow> 'b \<Rightarrow> 'b ImageSet" where
  "new_ImageSet nm empty_buffer =
     \<lparr>name = nm, paths_1x = [], paths_2x = [], buffer_1x = empty_buffer,
      buffer_2x = empty_buffer, masks = [], distances = []\<rparr>"

fun is_read :: "bool \<Rightarrow> event \<Rightarrow> bool" where
  "is_read is2x (ReadCall x path i) = (x = is2x)"
| "is_read is2x (CreateCall i) = False"

text \<open>
  The buffer after the reads of the frames from \<open>i\<close> up to \<open>j\<close> (without \<open>j\<close>), and
  whether the read of frame \<open>j\<close> into that buffer reports success.
\<close>

definition buffer_after :: "'b collaborators \<Rightarrow> string list \<Rightarrow> nat \<Rightarrow> 'b \<Rightarrow> nat \<Rightarrow> 'b" where
  "buffer_after ops paths i buffer j =
     fold (\<lambda>k b. snd (Read ops (paths ! k) k b)) [i..<j] buffer"

definition read_ok :: "'b collaborators \<Rightarrow> string list \<Rightarrow> nat \<Rightarrow> 'b \<Rightarrow> nat \<Rightarrow> bool" where
  "read_ok ops paths i buffer j =
     fst (Read ops (paths ! j) j (buffer_after ops paths i buffer j))"

text \<open>
  A collaborator for the examples: a buffer is its width and height, a path decodes
  to a 4 by 4 image unless it is empty, and every mask is the square with the corners
  \<open>(-1, -1)\<close> and \<open>(1, 1)\<close>.
\<close>

definition example_ops :: "(nat \<times> nat) collaborators" where
  "example_ops =
     \<lparr>Clear = (\<lambda>frames b. (0, 0)),
      Read = (\<lambda>path i b. if path = [] then (False, b) else (True, (4, 4))),
      Width = fst,
      Height = snd,
      Create = (\<lambda>b i. Mask [Point (- 1) (- 1), Point 1 (- 1), Point 1 1, Point (- 1) 1]),
      Contains = (\<lambda>m p. - 1 < X p \<and> X p < 1 \<and> - 1 < Y p \<and> Y p < 1)\<rparr>"

text \<open>
  Image sets for the examples: a ship with the frames 0, 1 and 2 and the @2x frames
  0, 1, 2 and 3; the same with the second frame missing; an outfit with one frame.
\<close>

definition example_ship :: "(nat \<times> nat) ImageSet" where
  "example_ship =
     (new_ImageSet ''ship/x'' (0, 0))
       \<lparr>paths_1x := [''ship/x-0.png'', ''ship/x-1.png'', ''ship/x-2.png''],
        paths_2x := [''ship/x-0@2x.png'', ''ship/x-1@2x.png'', ''ship/x-2@2x.png'',
                     ''ship/x-3@2x.png'']\<rparr>"

definition example_gap :: "(nat \<times> nat) ImageSet" where
  "example_gap =
     (new_ImageSet ''ship/x'' (0, 0))
       \<lparr>paths_1x := [''ship/x-0.png'', [], ''ship/x-2.png'']\<rparr>"

definition example_outfit :: "(nat \<times> nat) ImageSet" where
  "example_outfit =
     (new_ImageSet ''outfit/x'' (0, 0)) \<lparr>paths_1x := [''outfit/x.png'']\<rparr>"

text \<open>A decoder that finds no file: every read fails and leaves the buffer as it was.\<close>

definition failing_ops :: "(nat \<times> nat) collaborators" where
  "failing_ops = example_ops\<lparr>Read := (\<lambda>path i b. (False, b))\<rparr>"

text \<open>
  A collaborator whose buffer has a slot for each frame: a buffer is its width, its
  height and, for each frame, the path that was decoded into the slot, empty as
  \<open>Clear\<close> leaves it. A read of an empty path fails and leaves the buffer as it was.
  \<open>scribbling_ops\<close> is the same with a decoder that writes into the slot before it
  fails.
\<close>

definition frame_ops :: "(nat \<times> nat \<times> string list) collaborators" where
  "frame_ops =
     \<lparr>Clear = (\<lambda>frames b. (0, 0, replicate frames [])),
      Read = (\<lambda>path i b. if path = [] then (False, b)
                          else (True, (4, 4, (snd (snd b))[i := path]))),
      Width = fst,
      Height = (\<lambda>b. fst (snd b)),
      Create = (\<lambda>b i. Mask [Point (- 1) (- 1), Point 1 (- 1), Point 1 1, Point (- 1) 1]),
      Contains = (\<lambda>m p. - 1 < X p \<and> X p < 1 \<and> - 1 < Y p \<and> Y p < 1)\<rparr>"

definition frame_slot :: "nat \<times> nat \<times> string list \<Rightarrow> nat \<Rightarrow> string" where
  "frame_slot b i = snd (snd b) ! i"

definition scribbling_ops :: "(nat \<times> nat \<times> string list) collaborators" where
  "scribbling_ops =
     frame_ops\<lparr>Read := (\<lambda>path i b.
        if path = [] then (False, (fst b, fst (snd b), (snd (snd b))[i := ''partial'']))
        else (True, (4, 4, (snd (snd b))[i := path])))\<rparr>"

definition example_frames :: "(nat \<times> nat \<times> string list) ImageSet" where
  "example_frames =
     (new_ImageSet ''ship/x'' (0, 0, []))
       \<lparr>paths_1x := [''ship/x-0.png'', [], ''ship/x-2.png'']\<rparr>"

text \<open>
  What \<open>Load\<close> needs of the decoder for the pixels of a frame whose read fails: a
  failed read leaves the buffer as it was, and a read of one frame leaves the slots of
  the other frames as they were. \<open>slot\<close> gives the pixels of one frame of a buffer.
\<close>

definition decoder_keeps_slots :: "'b collaborators \<Rightarrow> ('b \<Rightarrow> nat \<Rightarrow> 'c) \<Rightarrow> bool" where
  "decoder_keeps_slots ops slot =
     ((\<forall>path j b. \<not> fst (Read ops path j b) \<longrightarrow> snd (Read ops path j b) = b) \<and>
      (\<forall>path j b i. i \<noteq> j \<longrightarrow> slot (snd (Read ops path j b)) i = slot b i))"

subsection \<open>Distances\<close>

text \<open>
  The values of the locals \<open>width\<close>, \<open>height\<close>, \<open>center\<close> and \<open>normalize\<close> of
  \<open>GenerateDistances\<close> for a given image buffer.
\<close>

definition field_width :: "'b collaborators \<Rightarrow> 'b \<Rightarrow> nat" where
  "field_width ops image_b = Width ops image_b div 2"

definition field_height :: "'b collaborators \<Rightarrow> 'b \<Rightarrow> nat" where
  "field_height ops image_b = Height ops image_b div 2"

definition field_center :: "'b collaborators \<Rightarrow> 'b \<Rightarrow> Point" where
  "field_center ops image_b =
     Point (0.5 * real (field_width ops image_b)) (0.5 * real (field_height ops image_b))"

definition field_normalize :: "'b collaborators \<Rightarrow> 'b \<Rightarrow> efloat" where
  "field_normalize ops image_b =
     to_float_e (to_double_e
       (fdiv 2 (Length (Point (real (Width ops image_b)) (real (Height ops image_b))))))"

text \<open>The values of \<open>prev\<close> and \<open>cur\<close> at the iterations of the loop over the outline.\<close>

fun loop_pairs :: "Point \<Rightarrow> Point list \<Rightarrow> (Point \<times> Point) list" where
  "loop_pairs prev [] = []"
| "loop_pairs prev (cur # rest) = (prev, cur) # loop_pairs cur rest"

text \<open>No point of the outline equals its successor, the first being the successor of the last.\<close>

definition no_consecutive_equal :: "Point list \<Rightarrow> bool" where
  "no_consecutive_equal outline =
     (\<forall>i \<in> set [0..<length outline]. outline ! i \<noteq> outline ! (Suc i mod length outline))"

definition sq_dist :: "Point \<Rightarrow> Point \<Rightarrow> real" where
  "sq_dist a b = (X a - X b)\<^sup>2 + (Y a - Y b)\<^sup>2"




text \<open>The projection parameter of \<open>p\<close> on the segment from \<open>a\<close> to \<open>b\<close>, as a real number.\<close>

definition proj_t :: "Point \<Rightarrow> Point \<Rightarrow> Point \<Rightarrow> real" where
  "proj_t p a b = Dot (point_sub p a) (point_sub b a) / LengthSquared (point_sub b a)"

text \<open>The squared distance from \<open>p\<close> to the point of the segment at the parameter clamped below at 0.\<close>

definition clamped_sq :: "Point \<Rightarrow> Point \<Rightarrow> Point \<Rightarrow> real" where
  "clamped_sq p a b =
     LengthSquared (if proj_t p a b > 0
                    then point_sub (point_sub p a) (point_scale (proj_t p a b) (point_sub b a))
                    else point_sub p a)"


text \<open>
  The loop over the outline with every conversion to \<open>float\<close> left out: \<open>t\<close> and
  \<open>distSquared\<close> as real numbers.
\<close>

definition exact_step :: "Point \<Rightarrow> Point \<Rightarrow> Point \<Rightarrow> efloat \<Rightarrow> efloat" where
  "exact_step p a b c =
     (if proj_t p a b < 1
      then (if fgreater c (clamped_sq p a b) then Finite (clamped_sq p a b) else c)
      else c)"


text \<open>The value of the \<open>float t\<close> at the iteration with \<open>prev = a\<close> and \<open>cur = b\<close>.\<close>

definition float_t :: "Point \<Rightarrow> Point \<Rightarrow> Point \<Rightarrow> efloat" where
  "float_t p a b =
     to_float_e (to_double_e
       (fdiv (Dot (point_sub p a) (point_sub b a)) (LengthSquared (point_sub b a))))"

text \<open>
  The point of the segment from \<open>a\<close> to \<open>b\<close> to which that iteration measures the
  distance: the point at the parameter \<open>t\<close>, or \<open>a\<close> when \<open>t\<close> is not positive.
\<close>

definition foot :: "Point \<Rightarrow> Point \<Rightarrow> Point \<Rightarrow> Point" where
  "foot p a b =
     (case float_t p a b of
        Finite tv \<Rightarrow>
          if tv > 0 then Point (X a + tv * (X b - X a)) (Y a + tv * (Y b - Y a)) else a
      | _ \<Rightarrow> a)"

section \<open>Properties of the filename grammar\<close>

lemma ebind_Inr [simp]: "ebind (Inr x) f = f x"
  by (simp add: ebind_def)

lemma ebind_Inl [simp]: "ebind (Inl e) f = Inl e"
  by (simp add: ebind_def)

lemma char_at_in [simp]: "i < length p \<Longrightarrow> char_at p i = Inr (p ! i)"
  by (simp add: char_at_def)

lemma char_at_beyond [simp]: "length p < i \<Longrightarrow> char_at p i = Inl OutOfBounds"
  by (simp add: char_at_def)

lemma take3_drop:
  "k + 3 \<le> length p \<Longrightarrow> take 3 (drop k p) = [p ! k, p ! (k + 1), p ! (k + 2)]"
  by (simp add: numeral_3_eq_3 take_Suc_conv_app_nth)

lemma Is2x_eq:
  "Is2x p = Inr (7 \<le> length p \<and> take 3 (drop (length p - 7) p) = ''@2x'')"
proof (cases "length p < 7")
  case True
  then show ?thesis by (simp add: Is2x_def)
next
  case False
  then have "take 3 (drop (length p - 7) p) =
     [p ! (length p - 7), p ! (length p - 7 + 1), p ! (length p - 7 + 2)]"
    by (intro take3_drop) simp
  then show ?thesis
    using False by (simp add: Is2x_def Let_def)
qed

lemma IsImage_eq:
  "IsImage p = Inr (4 \<le> length p \<and>
     drop (length p - 4) p \<in> {''.png'', ''.jpg'', ''.PNG'', ''.JPG''})"
  by (auto simp add: IsImage_def substr_from_def)

lemma IsDeferred_eq: "IsDeferred p = Inr (5 \<le> length p \<and> take 5 p = ''land/'')"
  by (auto simp add: IsDeferred_def compare_is_zero_def)

lemma IsMasked_eq:
  "IsMasked p = Inr ((5 \<le> length p \<and> take 5 p = ''ship/'') \<or>
                     (9 \<le> length p \<and> take 9 p = ''asteroid/''))"
  by (auto simp add: IsMasked_def compare_is_zero_def)

lemma scan_back_beyond: "length p < n - 1 \<Longrightarrow> scan_back p n = Inl OutOfBounds"
  by (cases n) auto

lemma NameEnd_short: "length p < 4 \<Longrightarrow> NameEnd p = Inl OutOfBounds"
  by (simp add: NameEnd_def Is2x_eq size_sub_def Let_def scan_back_beyond)

lemma Name_short: "length p < 4 \<Longrightarrow> Name p = Inl OutOfBounds"
  by (simp add: Name_def NameEnd_short)

lemma FrameIndex_short: "length p < 4 \<Longrightarrow> FrameIndex p = Inl OutOfBounds"
  by (simp add: FrameIndex_def NameEnd_short)

lemma scan_back_spec:
  "0 < e \<Longrightarrow> e \<le> length p \<Longrightarrow>
   \<exists>pos. scan_back p e = Inr pos \<and> pos < e \<and>
         (\<forall>i. pos < i \<and> i < e \<longrightarrow> is_digit (p ! i)) \<and>
         (pos = 0 \<or> \<not> is_digit (p ! pos))"
proof (induction e)
  case 0
  then show ?case by simp
next
  case (Suc n)
  show ?case
  proof (cases "n = 0")
    case True
    then show ?thesis by simp
  next
    case False
    then have n: "0 < n" "n < length p" "n \<le> length p" using Suc.prems by auto
    show ?thesis
    proof (cases "is_digit (p ! n)")
      case nd: False
      then show ?thesis using n False by auto
    next
      case d: True
      from Suc.IH[OF n(1) n(3)] obtain pos where pos: "scan_back p n = Inr pos" "pos < n"
        "\<forall>i. pos < i \<and> i < n \<longrightarrow> is_digit (p ! i)" "pos = 0 \<or> \<not> is_digit (p ! pos)"
        by blast
      have "\<forall>i. pos < i \<and> i < Suc n \<longrightarrow> is_digit (p ! i)"
        using pos(3) d by (auto simp: less_Suc_eq)
      then show ?thesis using n False d pos by auto
    qed
  qed
qed


lemma digit_value_range: "is_digit c \<Longrightarrow> 0 \<le> digit_value c \<and> digit_value c \<le> 9"
  by (auto simp add: is_digit_def digit_value_def)

lemma foldl_digits_mono:
  "\<forall>c \<in> set ds. is_digit c \<Longrightarrow> 0 \<le> f \<Longrightarrow>
   f \<le> foldl (\<lambda>frame c. frame * 10 + digit_value c) f ds"
proof (induction ds arbitrary: f)
  case Nil
  then show ?case by simp
next
  case (Cons c ds)
  have c: "0 \<le> digit_value c" using Cons.prems(1) digit_value_range by simp
  have "f \<le> f * 10 + digit_value c" using c Cons.prems(2) by simp
  also have "\<dots> \<le> foldl (\<lambda>frame c. frame * 10 + digit_value c) (f * 10 + digit_value c) ds"
    using Cons.IH[of "f * 10 + digit_value c"] Cons.prems c by simp
  finally show ?case by simp
qed

lemma char_at_digit:
  "i \<le> length p \<Longrightarrow>
   \<exists>c. char_at p i = Inr c \<and> (i < length p \<longrightarrow> c = p ! i) \<and>
       (is_digit c \<longleftrightarrow> i < length p \<and> is_digit (p ! i))"
  by (auto simp add: char_at_def is_digit_def)

lemma frame_loop_spec:
  "i \<le> length p \<Longrightarrow> 0 \<le> f \<Longrightarrow> f \<le> INT_MAX \<Longrightarrow>
   frame_loop p i f =
     (let v = foldl (\<lambda>frame c. frame * 10 + digit_value c) f (takeWhile is_digit (drop i p))
      in if v \<le> INT_MAX then Inr v else Inl SignedOverflow)"
proof (induction p i f rule: frame_loop.induct)
  case (1 path i frame)
  obtain c where c: "char_at path i = Inr c" "i < length path \<longrightarrow> c = path ! i"
      "is_digit c \<longleftrightarrow> i < length path \<and> is_digit (path ! i)"
    using char_at_digit[OF "1.prems"(1)] by blast
  show ?case
  proof (cases "is_digit c")
    case False
    then have "takeWhile is_digit (drop i path) = []"
      using "1.prems"(1) c(3)
      by (cases "i < length path") (auto simp: Cons_nth_drop_Suc[symmetric])
    then show ?thesis using False c(1) "1.prems" by (subst frame_loop.simps) auto
  next
    case True
    then have il: "i < length path" and ci: "c = path ! i" using c by auto
    define f' where "f' = frame * 10 + digit_value c"
    have dr: "drop i path = c # drop (i + 1) path"
      using il ci by (simp add: Cons_nth_drop_Suc)
    have tw: "takeWhile is_digit (drop i path) = c # takeWhile is_digit (drop (i + 1) path)"
      using True dr by simp
    have f'0: "0 \<le> f'" using True "1.prems" digit_value_range[of c] by (simp add: f'_def)
    have mono: "f' \<le> foldl (\<lambda>frame c. frame * 10 + digit_value c) f' (takeWhile is_digit (drop (i + 1) path))"
      by (rule foldl_digits_mono) (auto dest: set_takeWhileD simp: f'0)
    show ?thesis
    proof (cases "f' > INT_MAX")
      case ov: True
      then show ?thesis using True c(1) mono tw
        by (subst frame_loop.simps) (simp add: Let_def f'_def digit_value_def)
    next
      case nov: False
      have "frame_loop path (i + 1) f' =
        (let v = foldl (\<lambda>frame c. frame * 10 + digit_value c) f' (takeWhile is_digit (drop (i + 1) path))
         in if v \<le> INT_MAX then Inr v else Inl SignedOverflow)"
        using "1.IH"[OF c(1) True, of f'] nov f'0 il by (simp add: f'_def digit_value_def)
      then show ?thesis using True c(1) nov tw
        by (subst frame_loop.simps) (simp add: Let_def f'_def digit_value_def)
    qed
  qed
qed

lemma char_of_digit_value: "is_digit c \<Longrightarrow> char_of (48 + nat (digit_value c)) = c"
proof -
  assume d: "is_digit c"
  then have "48 + nat (digit_value c) = (of_char c :: nat)"
    by (auto simp add: is_digit_def digit_value_def)
  then show ?thesis by simp
qed

lemma digits_val_snoc: "digits_val (ds @ [c]) = digits_val ds * 10 + digit_value c"
  by (simp add: digits_val_def)

lemma digits_val_nonneg: "\<forall>c \<in> set ds. is_digit c \<Longrightarrow> 0 \<le> digits_val ds"
  unfolding digits_val_def using foldl_digits_mono[of ds 0] by simp

lemma decimal_digits_val:
  "\<forall>c \<in> set ds. is_digit c \<Longrightarrow> canonical_digits ds \<Longrightarrow> decimal (nat (digits_val ds)) = ds"
proof (induction ds rule: rev_induct)
  case Nil
  then show ?case by (simp add: canonical_digits_def)
next
  case (snoc c ds)
  have dc: "is_digit c" using snoc.prems(1) by simp
  have cr: "0 \<le> digit_value c" "digit_value c \<le> 9" using digit_value_range[OF dc] by auto
  show ?case
  proof (cases "ds = []")
    case True
    then have "nat (digits_val (ds @ [c])) = nat (digit_value c)"
      by (simp add: digits_val_def)
    moreover have "nat (digit_value c) < 10" using cr by simp
    ultimately show ?thesis using True char_of_digit_value[OF dc]
      by (subst decimal.simps) simp
  next
    case False
    then have hd: "hd ds \<noteq> CHR ''0''" using snoc.prems(2) by (auto simp: canonical_digits_def)
    then have can: "canonical_digits ds" using False by (simp add: canonical_digits_def)
    have IH: "decimal (nat (digits_val ds)) = ds" using snoc.IH snoc.prems(1) can by simp
    have nn: "0 \<le> digits_val ds" using digits_val_nonneg snoc.prems(1) by simp
    have "digits_val ds \<noteq> 0"
    proof
      assume "digits_val ds = 0"
      then have "ds = decimal 0" using IH by simp
      moreover have "char_of (48 :: nat) = CHR ''0''" by code_simp
      ultimately have "ds = ''0''" by (simp add: decimal.simps)
      then show False using hd by simp
    qed
    then have pos: "1 \<le> digits_val ds" using nn by simp
    define v where "v = nat (digits_val ds)"
    define d where "d = nat (digit_value c)"
    have v: "nat (digits_val (ds @ [c])) = v * 10 + d"
      using nn cr by (simp add: digits_val_snoc v_def d_def nat_add_distrib nat_mult_distrib)
    have d9: "d < 10" using cr by (simp add: d_def)
    have v1: "1 \<le> v" using pos by (simp add: v_def)
    have "\<not> v * 10 + d < 10" using v1 by simp
    moreover have "(v * 10 + d) div 10 = v" using d9 by simp
    moreover have "(v * 10 + d) mod 10 = d" using d9 by simp
    ultimately have "decimal (v * 10 + d) = decimal v @ [char_of (48 + d)]"
      by (subst decimal.simps) simp
    then show ?thesis
      using v IH char_of_digit_value[OF dc] by (simp add: v_def d_def)
  qed
qed


lemma region_end_less: "4 \<le> length p \<Longrightarrow> region_end p < length p"
  by (auto simp add: region_end_def is2x_marker_def)

lemma NameEnd_spec:
  assumes len: "4 \<le> length p"
  shows "\<exists>i. NameEnd p = Inr i \<and>
           (i = region_end p \<or>
            (i < region_end p \<and> IsBlend (p ! i) \<and>
             (\<forall>k. i < k \<and> k < region_end p \<longrightarrow> is_digit (p ! k))))"
proof -
  define e where "e = region_end p"
  have sub: "size_sub (length p) (if is2x_marker p then 7 else 4) = e"
    using len by (auto simp add: size_sub_def e_def region_end_def is2x_marker_def)
  have e_lt: "e < length p" using region_end_less[OF len] by (simp add: e_def)
  show ?thesis
  proof (cases "e = 0")
    case True
    then show ?thesis
      using sub by (simp add: NameEnd_def Is2x_eq is2x_marker_def[symmetric] e_def[symmetric])
  next
    case False
    then obtain pos where pos: "scan_back p e = Inr pos" "pos < e"
        "\<forall>i. pos < i \<and> i < e \<longrightarrow> is_digit (p ! i)"
      using scan_back_spec[of e p] e_lt by auto
    have "NameEnd p = Inr (if IsBlend (p ! pos) then pos else e)"
      using sub False pos e_lt
      by (simp add: NameEnd_def Is2x_eq is2x_marker_def[symmetric])
    then show ?thesis using pos unfolding e_def[symmetric] by auto
  qed
qed

lemma take_split:
  "i < e \<Longrightarrow> e \<le> length p \<Longrightarrow>
   take e p = take i p @ p ! i # take (e - i - 1) (drop (i + 1) p)"
proof -
  assume a: "i < e" "e \<le> length p"
  have "take e p = take i (take e p) @ drop i (take e p)"
    by (rule append_take_drop_id[symmetric])
  also have "take i (take e p) = take i p" using a by (simp add: min_def)
  also have "drop i (take e p) = take (e - i) (drop i p)" by (simp add: drop_take)
  also have "drop i p = p ! i # drop (i + 1) p" using a by (simp add: Cons_nth_drop_Suc)
  also have "take (e - i) (p ! i # drop (i + 1) p) = p ! i # take (e - i - 1) (drop (i + 1) p)"
    using a by (cases "e - i") auto
  finally show ?thesis .
qed

lemma recon_tail:
  assumes "4 \<le> length p"
  shows "take (region_end p) p @ (if is2x_marker p then ''@2x'' else []) @ drop (length p - 4) p = p"
proof (cases "is2x_marker p")
  case False
  then show ?thesis by (simp add: region_end_def)
next
  case True
  then have l7: "7 \<le> length p" and m: "take 3 (drop (length p - 7) p) = ''@2x''"
    by (auto simp: is2x_marker_def)
  have "drop (length p - 4) p = drop 3 (drop (length p - 7) p)" using l7 by simp
  then have "''@2x'' @ drop (length p - 4) p = drop (length p - 7) p"
    using m append_take_drop_id[of 3 "drop (length p - 7) p"] by simp
  then show ?thesis using True by (simp add: region_end_def)
qed

lemma region_end_char:
  assumes "IsImage p = Inr True"
  shows "\<not> is_digit (p ! region_end p) \<and> \<not> IsBlend (p ! region_end p)"
proof -
  have len: "4 \<le> length p" and ext: "drop (length p - 4) p \<in> {''.png'', ''.jpg'', ''.PNG'', ''.JPG''}"
    using assms by (auto simp add: IsImage_eq)
  have dot: "p ! (length p - 4) = CHR ''.''"
  proof -
    have "p ! (length p - 4) = hd (drop (length p - 4) p)"
      using len by (simp add: hd_drop_conv_nth)
    then show ?thesis using ext by auto
  qed
  show ?thesis
  proof (cases "is2x_marker p")
    case False
    then show ?thesis using dot by (simp add: region_end_def is_digit_def IsBlend_def)
  next
    case True
    then have l7: "7 \<le> length p" and m: "take 3 (drop (length p - 7) p) = ''@2x''"
      by (auto simp: is2x_marker_def)
    have "take 3 (drop (length p - 7) p) =
        [p ! (length p - 7), p ! (length p - 7 + 1), p ! (length p - 7 + 2)]"
      using l7 by (intro take3_drop) simp
    then have "p ! (length p - 7) = CHR ''@''" using m by simp
    then show ?thesis using True by (simp add: region_end_def is_digit_def IsBlend_def)
  qed
qed

lemma Name_FrameIndex_in_bounds:
  assumes len: "4 \<le> length p"
  shows "(\<exists>n. Name p = Inr n) \<and> ((\<exists>k. FrameIndex p = Inr k) \<or> FrameIndex p = Inl SignedOverflow)"
proof -
  have e_lt: "region_end p < length p" using region_end_less[OF len] .
  obtain i where i: "NameEnd p = Inr i" "i \<le> region_end p"
    using NameEnd_spec[OF len] by auto
  have i_lt: "i < length p" using i(2) e_lt by simp
  have nm: "Name p = Inr (take i p)" using i(1) i_lt by (simp add: Name_def substr_def)
  have "(\<exists>k. frame_loop p (i + 1) 0 = Inr k) \<or> frame_loop p (i + 1) 0 = Inl SignedOverflow"
    using frame_loop_spec[of "i + 1" p 0] i_lt by (simp add: INT_MAX_def Let_def)
  then have "(\<exists>k. FrameIndex p = Inr k) \<or> FrameIndex p = Inl SignedOverflow"
    using i(1) i_lt by (auto simp add: FrameIndex_def)
  then show ?thesis using nm by simp
qed

lemma decimal_nonempty: "decimal n \<noteq> []"
  by (subst decimal.simps) simp

lemma zero_char: "char_of (48 :: nat) = CHR ''0''"
  by code_simp

lemma digit_char_not_zero:
  "0 < (d :: nat) \<Longrightarrow> d < 10 \<Longrightarrow> char_of (48 + d) \<noteq> CHR ''0''"
proof
  assume d: "0 < d" "d < 10" and e: "char_of (48 + d) = CHR ''0''"
  then have "char_of (48 + d) = char_of (48 :: nat)" by (simp add: zero_char)
  then have "(48 + d) mod 256 = (48 :: nat) mod 256" by (simp only: char_of_quasi_inj)
  then show False using d by simp
qed

lemma hd_decimal: "0 < n \<Longrightarrow> hd (decimal n) \<noteq> CHR ''0''"
proof (induction n rule: decimal.induct)
  case (1 n)
  show ?case
  proof (cases "n < 10")
    case True
    then show ?thesis using "1.prems" digit_char_not_zero[of n]
      by (subst decimal.simps) simp
  next
    case False
    then have "0 < n div 10" by simp
    then have "hd (decimal (n div 10)) \<noteq> CHR ''0''" using "1.IH" False by simp
    then show ?thesis using False decimal_nonempty[of "n div 10"]
      by (subst decimal.simps) simp
  qed
qed

lemma decimal_canonical: "canonical_digits (decimal n)"
proof (cases "n < 10")
  case True
  then show ?thesis by (subst decimal.simps) (simp add: canonical_digits_def)
next
  case False
  then have "hd (decimal n) \<noteq> CHR ''0''" by (intro hd_decimal) simp
  then show ?thesis using decimal_nonempty by (simp add: canonical_digits_def)
qed

section \<open>Properties of Check and Load\<close>

lemma check_frame_members:
  "w \<in> set (check_frame s i) \<longleftrightarrow>
     (w = MissingFrame i \<and> paths_1x s ! i = []) \<or>
     (w = Missing2xFrame i \<and> paths_2x s \<noteq> [] \<and>
        (length (paths_2x s) \<le> i \<or> paths_2x s ! i = []))"
  by (auto simp add: check_frame_def)

lemma Check_members:
  "w \<in> set (Check s) \<longleftrightarrow>
     (w = ExtraFrames (length (paths_2x s) - length (paths_1x s)) \<and>
        length (paths_1x s) < length (paths_2x s)) \<or>
     (\<exists>i < length (paths_1x s). w \<in> set (check_frame s i))"
  by (auto simp add: Check_def)

lemma distinct_check_frames:
  "distinct (concat (map (check_frame s) [0..<n]))"
proof (induction n)
  case 0
  then show ?case by simp
next
  case (Suc n)
  have d: "distinct (check_frame s n)" by (simp add: check_frame_def)
  have "\<And>w i. i < n \<Longrightarrow> w \<in> set (check_frame s i) \<Longrightarrow> w \<notin> set (check_frame s n)"
    by (auto simp add: check_frame_members)
  then show ?case using Suc d by auto
qed

lemma distinct_Check: "distinct (Check s)"
proof -
  have "\<And>i. ExtraFrames (length (paths_2x s) - length (paths_1x s)) \<notin> set (check_frame s i)"
    by (simp add: check_frame_members)
  then show ?thesis using distinct_check_frames[of s "length (paths_1x s)"]
    by (auto simp add: Check_def)
qed

lemma Check_populated:
  assumes "length (paths_1x s) = 3" "length (paths_2x s) = 4"
    "[] \<notin> set (paths_1x s)" "[] \<notin> set (paths_2x s)"
  shows "Check s = [ExtraFrames 1]"
proof -
  have a: "\<And>i. i < 3 \<Longrightarrow> paths_1x s ! i \<noteq> []" using assms(1,3) by (metis nth_mem)
  have b: "\<And>i. i < 4 \<Longrightarrow> paths_2x s ! i \<noteq> []" using assms(2,4) by (metis nth_mem)
  have "\<And>i. i < 3 \<Longrightarrow> check_frame s i = []"
    using a b assms(2) by (simp add: check_frame_def)
  then have "concat (map (check_frame s) [0..<3]) = []" by simp
  then show ?thesis using assms(1,2) by (simp add: Check_def)
qed

lemma buffer_after_step:
  "i < j \<Longrightarrow> buffer_after ops paths i b j =
     buffer_after ops paths (Suc i) (snd (Read ops (paths ! i) i b)) j"
  by (simp add: buffer_after_def upt_conv_Cons)

lemma buffer_after_refl [simp]: "buffer_after ops paths i b i = b"
  by (simp add: buffer_after_def)

lemma buffer_after_Suc:
  "i \<le> j \<Longrightarrow> buffer_after ops paths i b (Suc j) =
     snd (Read ops (paths ! j) j (buffer_after ops paths i b j))"
  by (simp add: buffer_after_def)

lemma load_2x_spec:
  "load_2x ops paths frames i (b, tr) =
     (buffer_after ops paths i b (min frames (length paths)),
      tr @ map (\<lambda>k. ReadCall True (paths ! k) k) [i..<min frames (length paths)])"
proof (induction ops paths frames i "(b, tr)" arbitrary: b tr rule: load_2x.induct)
  case (1 ops paths frames i buffer trace)
  show ?case
  proof (cases "i < frames \<and> i < length paths")
    case False
    then have "[i..<min frames (length paths)] = []" by auto
    then show ?thesis using False by (subst load_2x.simps) (auto simp add: buffer_after_def)
  next
    case True
    obtain ok b' where r: "Read ops (paths ! i) i buffer = (ok, b')" by (cases "Read ops (paths ! i) i buffer")
    have u: "[i..<min frames (length paths)] = i # [Suc i..<min frames (length paths)]"
      using True by (simp add: upt_conv_Cons)
    have "load_2x ops paths frames i (buffer, trace) =
          load_2x ops paths frames (i + 1) (b', trace @ [ReadCall True (paths ! i) i])"
      using True r by (subst load_2x.simps) simp
    also have "\<dots> = (buffer_after ops paths (i + 1) b' (min frames (length paths)),
        (trace @ [ReadCall True (paths ! i) i]) @
          map (\<lambda>k. ReadCall True (paths ! k) k) [i + 1..<min frames (length paths)])"
      using "1.hyps"[OF True r[symmetric] refl] by simp
    finally show ?thesis using u r True by (simp add: buffer_after_step[of i])
  qed
qed


lemma read_ok_step:
  "i < k \<Longrightarrow> read_ok ops paths i b k =
     read_ok ops paths (Suc i) (snd (Read ops (paths ! i) i b)) k"
  by (simp add: read_ok_def buffer_after_step)

lemma read_ok_first: "read_ok ops paths i b i = fst (Read ops (paths ! i) i b)"
  by (simp add: read_ok_def)

lemma load_1x_spec:
  "load_1x ops mk paths frames i (b, ms, tr) = (b', ms', tr') \<Longrightarrow>
   b' = buffer_after ops paths i b (max i frames) \<and>
   length ms' = length ms \<and>
   (\<forall>k < length ms. ms' ! k =
      (if i \<le> k \<and> k < frames \<and> mk \<and> read_ok ops paths i b k
       then Create ops (buffer_after ops paths i b (Suc k)) k else ms ! k)) \<and>
   filter (is_read False) tr' =
     filter (is_read False) tr @ map (\<lambda>k. ReadCall False (paths ! k) k) [i..<frames] \<and>
   filter (is_read True) tr' = filter (is_read True) tr \<and>
   (\<forall>k. CreateCall k \<in> set tr' \<longleftrightarrow>
      CreateCall k \<in> set tr \<or> (i \<le> k \<and> k < frames \<and> mk \<and> read_ok ops paths i b k))"
proof (induction ops mk paths frames i "(b, ms, tr)" arbitrary: b ms tr rule: load_1x.induct)
  case (1 ops mk paths frames i b ms tr)
  show ?case
  proof (cases "i < frames")
    case False
    then have "(b', ms', tr') = (b, ms, tr)"
      using "1.prems" by (subst (asm) load_1x.simps) simp
    then show ?thesis using False by (auto simp add: max_def)
  next
    case True
    obtain ok b1 where r: "Read ops (paths ! i) i b = (ok, b1)"
      by (cases "Read ops (paths ! i) i b")
    define ms1 where "ms1 = (if ok \<and> mk then ms[i := Create ops b1 i] else ms)"
    define tr1 where "tr1 = (if ok \<and> mk
       then (tr @ [ReadCall False (paths ! i) i]) @ [CreateCall i]
       else tr @ [ReadCall False (paths ! i) i])"
    have step: "load_1x ops mk paths frames (i + 1) (b1, ms1, tr1) = (b', ms', tr')"
      using "1.prems" True r
      by (subst (asm) load_1x.simps) (auto simp add: ms1_def tr1_def Let_def split: if_splits)
    have IH: "b' = buffer_after ops paths (i + 1) b1 (max (i + 1) frames) \<and>
       length ms' = length ms1 \<and>
       (\<forall>k < length ms1. ms' ! k =
          (if i + 1 \<le> k \<and> k < frames \<and> mk \<and> read_ok ops paths (i + 1) b1 k
           then Create ops (buffer_after ops paths (i + 1) b1 (Suc k)) k else ms1 ! k)) \<and>
       filter (is_read False) tr' =
         filter (is_read False) tr1 @ map (\<lambda>k. ReadCall False (paths ! k) k) [i + 1..<frames] \<and>
       filter (is_read True) tr' = filter (is_read True) tr1 \<and>
       (\<forall>k. CreateCall k \<in> set tr' \<longleftrightarrow>
          CreateCall k \<in> set tr1 \<or>
          (i + 1 \<le> k \<and> k < frames \<and> mk \<and> read_ok ops paths (i + 1) b1 k))"
    proof (cases "ok \<and> mk")
      case okmk: True
      have e: "ms1 = ms[i := Create ops b1 i]"
        "tr1 = (tr @ [ReadCall False (paths ! i) i]) @ [CreateCall i]"
        using okmk by (simp_all add: ms1_def tr1_def)
      show ?thesis
        using step unfolding e by (rule "1.hyps"(1)[OF True refl r[symmetric] refl okmk])
    next
      case nok: False
      have e: "ms1 = ms" "tr1 = tr @ [ReadCall False (paths ! i) i]"
        using nok by (auto simp add: ms1_def tr1_def)
      show ?thesis
        using step unfolding e by (rule "1.hyps"(2)[OF True refl r[symmetric] refl nok])
    qed
    have b1: "b1 = snd (Read ops (paths ! i) i b)" using r by simp
    have ok: "ok = read_ok ops paths i b i" using r by (simp add: read_ok_first)
    have ba: "\<And>j. i < j \<Longrightarrow> buffer_after ops paths (i + 1) b1 j = buffer_after ops paths i b j"
      using buffer_after_step[of i _ ops paths b] b1 by simp
    have ro: "\<And>k. i < k \<Longrightarrow> read_ok ops paths (i + 1) b1 k = read_ok ops paths i b k"
      using read_ok_step[of i _ ops paths b] b1 by simp
    have c1: "b' = buffer_after ops paths i b (max i frames)"
      using IH True ba[of frames] by (simp add: max_def)
    have lms1: "length ms1 = length ms" by (simp add: ms1_def)
    have c2: "length ms' = length ms" using IH lms1 by simp
    have c3: "\<forall>k < length ms. ms' ! k =
      (if i \<le> k \<and> k < frames \<and> mk \<and> read_ok ops paths i b k
       then Create ops (buffer_after ops paths i b (Suc k)) k else ms ! k)"
    proof (intro allI impI)
      fix k assume k: "k < length ms"
      then have m: "ms' ! k =
          (if i + 1 \<le> k \<and> k < frames \<and> mk \<and> read_ok ops paths (i + 1) b1 k
           then Create ops (buffer_after ops paths (i + 1) b1 (Suc k)) k else ms1 ! k)"
        using IH lms1 by simp
      show "ms' ! k =
        (if i \<le> k \<and> k < frames \<and> mk \<and> read_ok ops paths i b k
         then Create ops (buffer_after ops paths i b (Suc k)) k else ms ! k)"
      proof (cases "i < k")
        case gt: True
        then have "ms1 ! k = ms ! k" by (simp add: ms1_def)
        then show ?thesis using m gt ro[OF gt] ba[of "Suc k"] by simp
      next
        case ngt: False
        show ?thesis
        proof (cases "k = i")
          case eq: True
          have "buffer_after ops paths i b (Suc i) = b1"
            using b1 by (simp add: buffer_after_Suc)
          then show ?thesis using m eq k True ok by (simp add: ms1_def)
        next
          case neq: False
          then have "k < i" using ngt by simp
          then show ?thesis using m by (simp add: ms1_def)
        qed
      qed
    qed
    have u: "[i..<frames] = i # [i + 1..<frames]" using True by (simp add: upt_conv_Cons)
    have c4: "filter (is_read False) tr' =
       filter (is_read False) tr @ map (\<lambda>k. ReadCall False (paths ! k) k) [i..<frames]"
      using IH u by (simp add: tr1_def)
    have c5: "filter (is_read True) tr' = filter (is_read True) tr"
      using IH by (simp add: tr1_def)
    have c6: "\<forall>k. CreateCall k \<in> set tr' \<longleftrightarrow>
       CreateCall k \<in> set tr \<or> (i \<le> k \<and> k < frames \<and> mk \<and> read_ok ops paths i b k)"
    proof
      fix k
      have m: "CreateCall k \<in> set tr' \<longleftrightarrow>
          CreateCall k \<in> set tr1 \<or>
          (i + 1 \<le> k \<and> k < frames \<and> mk \<and> read_ok ops paths (i + 1) b1 k)"
        using IH by blast
      have t1: "CreateCall k \<in> set tr1 \<longleftrightarrow> CreateCall k \<in> set tr \<or> (k = i \<and> ok \<and> mk)"
        by (auto simp add: tr1_def)
      show "CreateCall k \<in> set tr' \<longleftrightarrow>
        CreateCall k \<in> set tr \<or> (i \<le> k \<and> k < frames \<and> mk \<and> read_ok ops paths i b k)"
      proof (cases "i < k")
        case gt: True
        then show ?thesis using m t1 ro[OF gt] by auto
      next
        case ngt: False
        then show ?thesis using m t1 ok True by auto
      qed
    qed
    show ?thesis using c1 c2 c3 c4 c5 c6 by blast
  qed
qed

section \<open>The layout of the distance field\<close>

lemma fold_write:
  "fold (\<lambda>x (d, ptr). (d[ptr := f x], ptr + 1)) xs (d, ptr) = (d', ptr') \<Longrightarrow>
   ptr' = ptr + length xs \<and> length d' = length d \<and>
   (\<forall>j < length d. d' ! j =
      (if ptr \<le> j \<and> j < ptr + length xs then f (xs ! (j - ptr)) else d ! j))"
proof (induction xs arbitrary: d ptr)
  case Nil
  then show ?case by auto
next
  case (Cons x xs)
  have f: "fold (\<lambda>x (d, ptr). (d[ptr := f x], ptr + 1)) xs (d[ptr := f x], ptr + 1) = (d', ptr')"
    using Cons.prems by simp
  note IH = Cons.IH[OF f]
  have "\<forall>j < length d. d' ! j =
      (if ptr \<le> j \<and> j < ptr + length (x # xs) then f ((x # xs) ! (j - ptr)) else d ! j)"
  proof (intro allI impI)
    fix j assume j: "j < length d"
    then have m: "d' ! j = (if ptr + 1 \<le> j \<and> j < ptr + 1 + length xs
        then f (xs ! (j - (ptr + 1))) else d[ptr := f x] ! j)"
      using IH by simp
    show "d' ! j =
      (if ptr \<le> j \<and> j < ptr + length (x # xs) then f ((x # xs) ! (j - ptr)) else d ! j)"
    proof (cases "j = ptr")
      case True
      then show ?thesis using m j by simp
    next
      case False
      then show ?thesis using m j by (cases "ptr < j") (auto simp add: nth_Cons')
    qed
  qed
  then show ?case using IH by simp
qed

lemma x_loop_spec:
  "x_loop ops m c nf width y (d, ptr) = (d', ptr') \<Longrightarrow>
   ptr' = ptr + width \<and> length d' = length d \<and>
   (\<forall>j < length d. d' ! j =
      (if ptr \<le> j \<and> j < ptr + width then pixel_value ops m c nf (j - ptr) y else d ! j))"
  using fold_write[of "\<lambda>x. pixel_value ops m c nf x y" "[0..<width]" d ptr d' ptr']
  by (auto simp add: x_loop_def)

lemma y_loop_spec:
  "y_loop ops m c nf width height (d, ptr) = (d', ptr') \<Longrightarrow>
   ptr' = ptr + width * height \<and> length d' = length d \<and>
   (\<forall>j < length d. d' ! j =
      (if ptr \<le> j \<and> j < ptr + width * height
       then pixel_value ops m c nf ((j - ptr) mod width) ((j - ptr) div width) else d ! j))"
proof (induction height arbitrary: d' ptr')
  case 0
  then show ?case by (auto simp add: y_loop_def)
next
  case (Suc h)
  obtain d1 ptr1 where s1: "y_loop ops m c nf width h (d, ptr) = (d1, ptr1)"
    by (cases "y_loop ops m c nf width h (d, ptr)")
  have s2: "x_loop ops m c nf width h (d1, ptr1) = (d', ptr')"
    using Suc.prems s1 by (simp add: y_loop_def)
  note A = Suc.IH[OF s1]
  note B = x_loop_spec[OF s2]
  have p1: "ptr1 = ptr + width * h" and l1: "length d1 = length d" using A by simp_all
  have "\<forall>j < length d. d' ! j =
      (if ptr \<le> j \<and> j < ptr + width * Suc h
       then pixel_value ops m c nf ((j - ptr) mod width) ((j - ptr) div width) else d ! j)"
  proof (intro allI impI)
    fix j assume j: "j < length d"
    have a: "d1 ! j = (if ptr \<le> j \<and> j < ptr + width * h
       then pixel_value ops m c nf ((j - ptr) mod width) ((j - ptr) div width) else d ! j)"
      using A j by simp
    have b: "d' ! j = (if ptr1 \<le> j \<and> j < ptr1 + width
        then pixel_value ops m c nf (j - ptr1) h else d1 ! j)"
      using B j l1 by simp
    show "d' ! j =
      (if ptr \<le> j \<and> j < ptr + width * Suc h
       then pixel_value ops m c nf ((j - ptr) mod width) ((j - ptr) div width) else d ! j)"
    proof (cases "ptr1 \<le> j \<and> j < ptr1 + width")
      case True
      define r where "r = j - ptr1"
      have r: "r < width" "j - ptr = r + h * width" using True p1 by (auto simp add: r_def)
      have "(j - ptr) mod width = r" "(j - ptr) div width = h"
        using r by simp_all
      then show ?thesis using b True p1 r_def by auto
    next
      case False
      then show ?thesis using a b p1 by auto
    qed
  qed
  then show ?case using A B by (simp add: add.assoc)
qed

lemma mask_step_spec:
  assumes "mask_step ops c nf w h m (d, ptr) = (d1, ptr1)"
  shows "ptr1 = ptr + w * h \<and> length d1 = length d \<and>
   (\<forall>j < length d. d1 ! j =
      (if ptr \<le> j \<and> j < ptr + w * h \<and> Outline m \<noteq> []
       then pixel_value ops m c nf ((j - ptr) mod w) ((j - ptr) div w) else d ! j))"
proof (cases "Outline m = []")
  case True
  then show ?thesis using assms by (auto simp add: mask_step_def)
next
  case False
  then have "y_loop ops m c nf w h (d, ptr) = (d1, ptr1)"
    using assms by (simp add: mask_step_def)
  from y_loop_spec[OF this] show ?thesis using False by simp
qed

lemma masks_fold_spec:
  "fold (mask_step ops c nf w h) ms (d, ptr) = (d', ptr') \<Longrightarrow>
   ptr' = ptr + w * h * length ms \<and> length d' = length d \<and>
   (\<forall>j < length d. d' ! j =
      (if ptr \<le> j \<and> j < ptr + w * h * length ms \<and> Outline (ms ! ((j - ptr) div (w * h))) \<noteq> []
       then pixel_value ops (ms ! ((j - ptr) div (w * h))) c nf
              (((j - ptr) mod (w * h)) mod w) (((j - ptr) mod (w * h)) div w)
       else d ! j))"
proof (induction ms arbitrary: d ptr)
  case Nil
  then show ?case by auto
next
  case (Cons m ms)
  define N where "N = w * h"
  obtain d1 ptr1 where s1: "mask_step ops c nf w h m (d, ptr) = (d1, ptr1)"
    by (cases "mask_step ops c nf w h m (d, ptr)")
  have s2: "fold (mask_step ops c nf w h) ms (d1, ptr1) = (d', ptr')"
    using Cons.prems s1 by simp
  note A = mask_step_spec[OF s1]
  note B = Cons.IH[OF s2]
  have p1: "ptr1 = ptr + N" and l1: "length d1 = length d" using A by (simp_all add: N_def)
  have pl: "ptr' = ptr + N * length (m # ms)" using B p1 by (simp add: N_def)
  have "\<forall>j < length d. d' ! j =
      (if ptr \<le> j \<and> j < ptr + N * length (m # ms) \<and>
          Outline ((m # ms) ! ((j - ptr) div N)) \<noteq> []
       then pixel_value ops ((m # ms) ! ((j - ptr) div N)) c nf
              (((j - ptr) mod N) mod w) (((j - ptr) mod N) div w)
       else d ! j)"
  proof (intro allI impI)
    fix j assume j: "j < length d"
    have a: "d1 ! j = (if ptr \<le> j \<and> j < ptr + N \<and> Outline m \<noteq> []
       then pixel_value ops m c nf ((j - ptr) mod w) ((j - ptr) div w) else d ! j)"
      using A j by (simp add: N_def)
    have b: "d' ! j =
      (if ptr1 \<le> j \<and> j < ptr1 + N * length ms \<and> Outline (ms ! ((j - ptr1) div N)) \<noteq> []
       then pixel_value ops (ms ! ((j - ptr1) div N)) c nf
              (((j - ptr1) mod N) mod w) (((j - ptr1) mod N) div w)
       else d1 ! j)"
      using B j l1 by (simp add: N_def)
    show "d' ! j =
      (if ptr \<le> j \<and> j < ptr + N * length (m # ms) \<and>
          Outline ((m # ms) ! ((j - ptr) div N)) \<noteq> []
       then pixel_value ops ((m # ms) ! ((j - ptr) div N)) c nf
              (((j - ptr) mod N) mod w) (((j - ptr) mod N) div w)
       else d ! j)"
    proof (cases "ptr1 \<le> j \<and> j < ptr1 + N * length ms")
      case True
      then have Npos: "0 < N" by (cases "N = 0") auto
      have e: "j - ptr = (j - ptr1) + N" using True p1 by simp
      have dv: "(j - ptr) div N = Suc ((j - ptr1) div N)" using e Npos by simp
      have md: "(j - ptr) mod N = (j - ptr1) mod N" using e by simp
      have rng: "ptr \<le> j \<and> j < ptr + N * length (m # ms)" using True p1 by simp
      have out: "\<not> (ptr \<le> j \<and> j < ptr + N)" using True p1 by simp
      show ?thesis using a b True rng out dv md by simp
    next
      case False
      then have b': "d' ! j = d1 ! j" using b by auto
      show ?thesis
      proof (cases "ptr \<le> j \<and> j < ptr + N")
        case in1: True
        then have "j - ptr < N" by arith
        then have "(j - ptr) div N = 0" "(j - ptr) mod N = j - ptr" by simp_all
        then show ?thesis using a b' in1 by simp
      next
        case out1: False
        then have "\<not> (ptr \<le> j \<and> j < ptr + N * length (m # ms))"
          using False p1 by (auto simp add: algebra_simps)
        then show ?thesis using a b' out1 by auto
      qed
    qed
  qed
  then show ?case using pl B l1 unfolding N_def by simp
qed

lemma GenerateDistances_unfold:
  "ms \<noteq> [] \<Longrightarrow> GenerateDistances ops img ms ds =
     fst (fold (mask_step ops (field_center ops img) (field_normalize ops img)
                  (field_width ops img) (field_height ops img)) ms
            (replicate (field_width ops img * field_height ops img * length ms) PosInf, 0))"
  by (simp add: GenerateDistances_def Let_def field_center_def field_normalize_def
      field_width_def field_height_def)

lemma GenerateDistances_empty [simp]: "GenerateDistances ops img [] ds = ds"
  by (simp add: GenerateDistances_def)

lemma GenerateDistances_length:
  "ms \<noteq> [] \<Longrightarrow> length (GenerateDistances ops img ms ds) =
     field_width ops img * field_height ops img * length ms"
proof -
  assume ne: "ms \<noteq> []"
  define w where "w = field_width ops img"
  define h where "h = field_height ops img"
  obtain d' ptr' where f: "fold (mask_step ops (field_center ops img) (field_normalize ops img) w h) ms
       (replicate (w * h * length ms) PosInf, 0) = (d', ptr')"
    by (cases "fold (mask_step ops (field_center ops img) (field_normalize ops img) w h) ms
       (replicate (w * h * length ms) PosInf, 0)")
  from masks_fold_spec[OF f] have "length d' = w * h * length ms" by simp
  then show ?thesis using f ne by (simp add: GenerateDistances_unfold w_def h_def)
qed

lemma GenerateDistances_nth:
  assumes ne: "ms \<noteq> []" and k: "k < length ms"
    and x: "x < field_width ops img" and y: "y < field_height ops img"
  shows "GenerateDistances ops img ms ds !
           (k * (field_width ops img * field_height ops img) + y * field_width ops img + x) =
         (if Outline (ms ! k) = [] then PosInf
          else pixel_value ops (ms ! k) (field_center ops img) (field_normalize ops img) x y)"
proof -
  define w where "w = field_width ops img"
  define h where "h = field_height ops img"
  define N where "N = w * h"
  define j where "j = k * N + y * w + x"
  obtain d' ptr' where f: "fold (mask_step ops (field_center ops img) (field_normalize ops img) w h) ms
       (replicate (w * h * length ms) PosInf, 0) = (d', ptr')"
    by (cases "fold (mask_step ops (field_center ops img) (field_normalize ops img) w h) ms
       (replicate (w * h * length ms) PosInf, 0)")
  have r: "y * w + x < N"
  proof -
    have "y * w + x < y * w + w" using x by (simp add: w_def)
    also have "\<dots> = (Suc y) * w" by simp
    also have "\<dots> \<le> h * w" using y unfolding h_def by (intro mult_le_mono1) simp
    finally show ?thesis by (simp add: N_def mult.commute)
  qed
  have jl: "j < N * length ms"
  proof -
    have "j < k * N + N" using r by (simp add: j_def)
    also have "\<dots> = Suc k * N" by simp
    also have "\<dots> \<le> length ms * N" using k by (intro mult_le_mono1) simp
    finally show ?thesis by (simp add: mult.commute)
  qed
  have dv: "j div N = k" using r by (simp add: j_def add.assoc)
  have md: "j mod N = y * w + x" using r by (simp add: j_def add.assoc)
  have xw: "x < w" using x by (simp add: w_def)
  have mw: "(y * w + x) mod w = x" "(y * w + x) div w = y" using xw by simp_all
  have "d' ! j =
      (if 0 \<le> j \<and> j < 0 + w * h * length ms \<and> Outline (ms ! ((j - 0) div (w * h))) \<noteq> []
       then pixel_value ops (ms ! ((j - 0) div (w * h))) (field_center ops img) (field_normalize ops img)
              (((j - 0) mod (w * h)) mod w) (((j - 0) mod (w * h)) div w)
       else replicate (w * h * length ms) PosInf ! j)"
    using masks_fold_spec[OF f] jl by (simp add: N_def)
  then have "d' ! j = (if Outline (ms ! k) = [] then PosInf
      else pixel_value ops (ms ! k) (field_center ops img) (field_normalize ops img) x y)"
    using jl dv md mw unfolding N_def[symmetric] by simp
  then show ?thesis
    using f ne by (simp add: GenerateDistances_unfold w_def[symmetric] h_def[symmetric] j_def N_def)
qed

lemma Load_result:
  fixes ops :: "'b collaborators" and s :: "'b ImageSet"
  defines "n \<equiv> length (paths_1x s)"
  shows "\<exists>s' tr mk. Load ops s = Inr (s', tr) \<and> IsMasked (name s) = Inr mk \<and>
     name s' = name s \<and> paths_1x s' = paths_1x s \<and> paths_2x s' = paths_2x s \<and>
     buffer_1x s' = buffer_after ops (paths_1x s) 0 (Clear ops n (buffer_1x s)) n \<and>
     buffer_2x s' = buffer_after ops (paths_2x s) 0 (Clear ops n (buffer_2x s))
                      (min n (length (paths_2x s))) \<and>
     length (masks s') = length (if mk then resize n (Mask []) (masks s) else masks s) \<and>
     (\<forall>k < length (masks s'). masks s' ! k =
        (if k < n \<and> mk \<and> read_ok ops (paths_1x s) 0 (Clear ops n (buffer_1x s)) k
         then Create ops (buffer_after ops (paths_1x s) 0 (Clear ops n (buffer_1x s)) (Suc k)) k
         else (if mk then resize n (Mask []) (masks s) else masks s) ! k)) \<and>
     distances s' = GenerateDistances ops (buffer_1x s') (masks s') (distances s) \<and>
     filter (is_read False) tr = map (\<lambda>k. ReadCall False (paths_1x s ! k) k) [0..<n] \<and>
     filter (is_read True) tr =
       map (\<lambda>k. ReadCall True (paths_2x s ! k) k) [0..<min n (length (paths_2x s))] \<and>
     (\<forall>k. CreateCall k \<in> set tr \<longleftrightarrow>
        k < n \<and> mk \<and> read_ok ops (paths_1x s) 0 (Clear ops n (buffer_1x s)) k)"
proof -
  define mk where "mk = ((5 \<le> length (name s) \<and> take 5 (name s) = ''ship/'') \<or>
                     (9 \<le> length (name s) \<and> take 9 (name s) = ''asteroid/''))"
  have im: "IsMasked (name s) = Inr mk" by (simp add: IsMasked_eq mk_def)
  define b0 where "b0 = Clear ops n (buffer_1x s)"
  define ms0 where "ms0 = (if mk then resize n (Mask []) (masks s) else masks s)"
  obtain b' ms' tr1 where l1: "load_1x ops mk (paths_1x s) n 0 (b0, ms0, []) = (b', ms', tr1)"
    by (cases "load_1x ops mk (paths_1x s) n 0 (b0, ms0, [])")
  note A = load_1x_spec[OF l1]
  define b2 where "b2 = buffer_after ops (paths_2x s) 0 (Clear ops n (buffer_2x s))
                      (min n (length (paths_2x s)))"
  define tr where "tr = tr1 @ map (\<lambda>k. ReadCall True (paths_2x s ! k) k)
                      [0..<min n (length (paths_2x s))]"
  define s' where "s' = s\<lparr>buffer_1x := b', buffer_2x := b2, masks := ms',
                      distances := GenerateDistances ops b' ms' (distances s)\<rparr>"
  have L: "Load ops s = Inr (s', tr)"
    using im l1
    by (simp add: Load_def Let_def n_def[symmetric] b0_def[symmetric] ms0_def[symmetric]
        load_2x_spec s'_def tr_def b2_def)
  have f1: "filter (is_read False) tr = map (\<lambda>k. ReadCall False (paths_1x s ! k) k) [0..<n]"
    using A by (simp add: tr_def filter_map comp_def)
  have f2: "filter (is_read True) tr =
       map (\<lambda>k. ReadCall True (paths_2x s ! k) k) [0..<min n (length (paths_2x s))]"
    using A by (simp add: tr_def filter_map comp_def)
  have cc: "\<forall>k. CreateCall k \<in> set tr \<longleftrightarrow> k < n \<and> mk \<and> read_ok ops (paths_1x s) 0 b0 k"
    using A by (auto simp add: tr_def)
  have lm: "length ms' = length ms0" using A by simp
  have mm: "\<forall>k < length ms'. ms' ! k =
        (if k < n \<and> mk \<and> read_ok ops (paths_1x s) 0 b0 k
         then Create ops (buffer_after ops (paths_1x s) 0 b0 (Suc k)) k else ms0 ! k)"
    using A lm by simp
  have bb: "b' = buffer_after ops (paths_1x s) 0 b0 n" using A by simp
  show ?thesis
    apply (rule exI[of _ s'], rule exI[of _ tr], rule exI[of _ mk])
    using L im f1 f2 cc lm mm bb
    by (simp add: s'_def b0_def ms0_def b2_def)
qed


section \<open>The distance from a point to a segment\<close>





lemma LengthSquared_pos: "a \<noteq> b \<Longrightarrow> 0 < LengthSquared (point_sub b a)"
proof -
  assume "a \<noteq> b"
  then have "X b - X a \<noteq> 0 \<or> Y b - Y a \<noteq> 0" by (cases a, cases b) auto
  then have "0 < (X b - X a)\<^sup>2 + (Y b - Y a)\<^sup>2"
    by (metis sum_power2_gt_zero_iff)
  then show ?thesis
    by (simp add: LengthSquared_def Dot_def point_sub_def power2_eq_square)
qed











section \<open>The loop over the outline\<close>

lemma loop_pairs_length [simp]: "length (loop_pairs prev curs) = length curs"
  by (induction curs arbitrary: prev) auto

lemma loop_pairs_nth:
  "j < length curs \<Longrightarrow> loop_pairs prev curs ! j = ((prev # curs) ! j, curs ! j)"
proof (induction curs arbitrary: prev j)
  case Nil
  then show ?case by simp
next
  case (Cons c cs)
  then show ?case by (cases j) auto
qed

lemma segment_loop_fold:
  "segment_loop p prev curs c =
     fold (\<lambda>(a, b). segment_step p a b) (loop_pairs prev curs) c"
  by (induction curs arbitrary: prev c) auto

lemma loop_pairs_edges:
  assumes ne: "outline \<noteq> []"
  shows "set (loop_pairs (last outline) outline) =
     {(outline ! i, outline ! (Suc i mod length outline)) | i. i < length outline}"
proof -
  define n where "n = length outline"
  have n0: "0 < n" using ne by (simp add: n_def)
  have lst: "last outline = outline ! (n - 1)" using ne by (simp add: last_conv_nth n_def)
  have pj: "\<And>j. j < n \<Longrightarrow> loop_pairs (last outline) outline ! j =
      (outline ! ((j + n - 1) mod n), outline ! j)"
  proof -
    fix j assume j: "j < n"
    show "loop_pairs (last outline) outline ! j = (outline ! ((j + n - 1) mod n), outline ! j)"
    proof (cases j)
      case 0
      then show ?thesis using j n0 lst by (simp add: loop_pairs_nth n_def)
    next
      case (Suc k)
      then have "(j + n - 1) mod n = k" using j by simp
      then show ?thesis using j Suc by (simp add: loop_pairs_nth n_def)
    qed
  qed
  show ?thesis
  proof (intro set_eqI iffI)
    fix e assume "e \<in> set (loop_pairs (last outline) outline)"
    then obtain j where j: "j < n" "e = loop_pairs (last outline) outline ! j"
      by (auto simp add: in_set_conv_nth n_def)
    define i where "i = (j + n - 1) mod n"
    have i: "i < n" using n0 by (simp add: i_def)
    have "Suc i mod n = j"
    proof (cases j)
      case 0
      then show ?thesis using n0 by (simp add: i_def)
    next
      case (Suc k)
      then have "i = k" using j by (simp add: i_def)
      then show ?thesis using Suc j by simp
    qed
    then have "e = (outline ! i, outline ! (Suc i mod n))" using j pj i_def by simp
    then show "e \<in> {(outline ! i, outline ! (Suc i mod length outline)) | i. i < length outline}"
      using i unfolding n_def by blast
  next
    fix e assume "e \<in> {(outline ! i, outline ! (Suc i mod length outline)) | i. i < length outline}"
    then obtain i where i: "i < n" "e = (outline ! i, outline ! (Suc i mod n))"
      unfolding n_def by blast
    define j where "j = Suc i mod n"
    have j: "j < n" using n0 by (simp add: j_def)
    have "(j + n - 1) mod n = i"
    proof (cases "Suc i < n")
      case True
      then show ?thesis by (simp add: j_def)
    next
      case False
      then have "Suc i = n" using i by simp
      then show ?thesis using i by (auto simp add: j_def)
    qed
    then have "e = loop_pairs (last outline) outline ! j" using pj[OF j] i j_def by simp
    then show "e \<in> set (loop_pairs (last outline) outline)"
      using j by (auto simp add: in_set_conv_nth n_def)
  qed
qed


lemma step_keeps_kind:
  assumes "a \<noteq> b" "c = PosInf \<or> (\<exists>x. c = Finite x)"
  shows "exact_step p a b c = PosInf \<or> (\<exists>x. exact_step p a b c = Finite x)"
  using assms by (auto simp add: exact_step_def)




lemma fold_keeps_kind:
  assumes "\<forall>(a, b) \<in> set ps. a \<noteq> b" "c = PosInf \<or> (\<exists>x. c = Finite x)"
  shows "fold (\<lambda>(a, b). exact_step p a b) ps c = PosInf \<or>
         (\<exists>x. fold (\<lambda>(a, b). exact_step p a b) ps c = Finite x)"
  using assms
proof (induction ps arbitrary: c)
  case Nil
  then show ?case by simp
next
  case (Cons e ps)
  obtain a b where e: "e = (a, b)" by (cases e)
  have ne: "a \<noteq> b" using Cons.prems(1) e by simp
  have "exact_step p a b c = PosInf \<or> (\<exists>x. exact_step p a b c = Finite x)"
    by (rule step_keeps_kind[OF ne Cons.prems(2)])
  then show ?case using Cons.IH[of "exact_step p a b c"] Cons.prems(1) e by simp
qed



lemma edges_distinct_ends:
  assumes "outline \<noteq> []" "no_consecutive_equal outline"
  shows "\<forall>(a, b) \<in> set (loop_pairs (last outline) outline). a \<noteq> b"
  using assms by (auto simp add: loop_pairs_edges no_consecutive_equal_def)


section \<open>Rounding\<close>

lemma round_half_even_int [simp]: "round_half_even (of_int n) = n"
  by (simp add: round_half_even_def)

lemma round_half_even_bounds:
  "\<lfloor>y\<rfloor> \<le> round_half_even y \<and> round_half_even y \<le> \<lfloor>y\<rfloor> + 1"
  by (simp add: round_half_even_def Let_def)

lemma round_half_even_nonneg: "0 \<le> y \<Longrightarrow> 0 \<le> round_half_even y"
  using round_half_even_bounds[of y] by (smt (verit) zero_le_floor)








lemma binary_round_nonneg:
  assumes "0 \<le> x"
  shows "binary_round prec emin emax x = PosInf
       \<or> (\<exists>r. 0 \<le> r \<and> binary_round prec emin emax x = Finite r)"
proof (cases "x = 0")
  case True
  then show ?thesis by (simp add: binary_round_def)
next
  case False
  then have x: "0 < x" using assms by simp
  define u where "u = max \<lfloor>log 2 \<bar>x\<bar>\<rfloor> emin - int prec + 1"
  define r where "r = real_of_int (round_half_even (x / 2 powr of_int u)) * 2 powr of_int u"
  have "0 \<le> x / 2 powr of_int u" using x by simp
  then have "0 \<le> round_half_even (x / 2 powr of_int u)" by (rule round_half_even_nonneg)
  then have r0: "0 \<le> r" by (simp add: r_def)
  have "binary_round prec emin emax x =
      (if \<bar>r\<bar> \<ge> 2 powr of_int (emax + 1) then (if x > 0 then PosInf else NegInf) else Finite r)"
    using False unfolding binary_round_def Let_def u_def r_def by (simp only: if_False)
  then show ?thesis using x r0 by auto
qed


lemma to_float_nonneg:
  "0 \<le> x \<Longrightarrow> to_float x = PosInf \<or> (\<exists>r. 0 \<le> r \<and> to_float x = Finite r)"
  unfolding to_float_def by (rule binary_round_nonneg)




section \<open>The loop over the outline in floating point\<close>

lemma fgt_simps [simp]:
  "fgt (Finite x) (Finite y) = (x > y)"
  "fgt PosInf (Finite y) = True"
  "fgt c PosInf = False"
  "fgt NaN c = False"
  "fgt c NaN = False"
  "fgt NegInf c = False"
  by (simp_all add: fgt_def split: efloat.splits)



text \<open>One iteration, in terms of the point it measures the distance to.\<close>

lemma segment_step_foot:
  "segment_step p a b c =
     (if fless (float_t p a b) 1
      then (if fgt c (to_float (sq_dist p (foot p a b))) then to_float (sq_dist p (foot p a b))
            else c)
      else c)"
proof -
  have d: "LengthSquared
       (if fgreater (float_t p a b) 0
        then (case float_t p a b of
                Finite tv \<Rightarrow> point_sub (point_sub p a) (point_scale tv (point_sub b a))
              | _ \<Rightarrow> point_sub p a)
        else point_sub p a) = sq_dist p (foot p a b)"
    by (cases "float_t p a b")
       (simp_all add: foot_def sq_dist_def LengthSquared_def Dot_def point_sub_def
          point_scale_def power2_eq_square algebra_simps)
  show ?thesis
    unfolding segment_step_def Let_def float_t_def[symmetric] d by simp
qed

lemma sq_dist_nonneg: "0 \<le> sq_dist p q"
  by (simp add: sq_dist_def)

lemma foot_value_kind:
  "to_float (sq_dist p q) = PosInf \<or> (\<exists>x. to_float (sq_dist p q) = Finite x)"
  using to_float_nonneg[OF sq_dist_nonneg[of p q]] by auto

lemma float_step_kind:
  assumes "c = PosInf \<or> (\<exists>x. c = Finite x)"
  shows "segment_step p a b c = PosInf \<or> (\<exists>x. segment_step p a b c = Finite x)"
  using assms foot_value_kind[of p "foot p a b"] by (auto simp add: segment_step_foot)



lemma float_fold_kind:
  assumes "c = PosInf \<or> (\<exists>x. c = Finite x)"
  shows "fold (\<lambda>(a, b). segment_step p a b) ps c = PosInf \<or>
         (\<exists>x. fold (\<lambda>(a, b). segment_step p a b) ps c = Finite x)"
  using assms
proof (induction ps arbitrary: c)
  case Nil
  then show ?case by simp
next
  case (Cons e ps)
  obtain a b where e: "e = (a, b)" by (cases e)
  show ?case using Cons.IH[OF float_step_kind[OF Cons.prems, of p a b]] by (simp add: e)
qed







section \<open>The claims about the filename grammar\<close>

text \<open>
  C2 (as amended). For every path \<open>p\<close> accepted by \<open>IsImage\<close>: \<open>Name p\<close>, then the
  blend-mode marker and the run of digits after it when a frame suffix is parsed, then
  \<open>@2x\<close> when \<open>Is2x p\<close> holds, then the last four characters of \<open>p\<close>, is \<open>p\<close> again.
  \<open>FrameIndex p\<close> is 0 without a frame suffix and the value of the run of digits
  otherwise (undefined when that value is above \<open>INT_MAX\<close>). With the run of digits
  replaced by the decimal digits of its value, the concatenation is \<open>p\<close> exactly when
  the run is not empty and has no leading zero.
\<close>

theorem path_roundtrip:
  assumes img: "IsImage p = Inr True"
  shows "\<exists>n x. Name p = Inr n \<and> Is2x p = Inr x \<and>
     p = n @ (case frame_suffix p of None \<Rightarrow> [] | Some (b, ds) \<Rightarrow> b # ds)
           @ (if x then ''@2x'' else []) @ drop (length p - 4) p \<and>
     (case frame_suffix p of
        None \<Rightarrow> FrameIndex p = Inr 0
      | Some (b, ds) \<Rightarrow>
          FrameIndex p =
            (if digits_val ds \<le> INT_MAX then Inr (digits_val ds) else Inl SignedOverflow) \<and>
          (p = n @ (b # decimal (nat (digits_val ds)))
                 @ (if x then ''@2x'' else []) @ drop (length p - 4) p
           \<longleftrightarrow> canonical_digits ds))"
proof -
  have len: "4 \<le> length p" using img by (auto simp add: IsImage_eq)
  define e where "e = region_end p"
  have e_lt: "e < length p" using region_end_less[OF len] by (simp add: e_def)
  have ec: "\<not> is_digit (p ! e)" "\<not> IsBlend (p ! e)"
    using region_end_char[OF img] by (simp_all add: e_def)
  have x: "Is2x p = Inr (is2x_marker p)" by (simp add: Is2x_eq is2x_marker_def)
  define rest where "rest = (if is2x_marker p then ''@2x'' else []) @ drop (length p - 4) p"
  have tail: "take e p @ rest = p"
    using recon_tail[OF len] by (simp add: e_def rest_def)
  obtain i where i: "NameEnd p = Inr i"
      "i = e \<or> (i < e \<and> IsBlend (p ! i) \<and> (\<forall>k. i < k \<and> k < e \<longrightarrow> is_digit (p ! k)))"
    using NameEnd_spec[OF len] unfolding e_def[symmetric] by blast
  have i_lt: "i < length p" using i(2) e_lt by auto
  have nm: "Name p = Inr (take i p)" using i(1) i_lt by (simp add: Name_def substr_def)
  show ?thesis
  proof (cases "i = e")
    case True
    have fs: "frame_suffix p = None" using i(1) True ec by (simp add: frame_suffix_def)
    have fi: "FrameIndex p = Inr 0" using i(1) True ec e_lt by (simp add: FrameIndex_def)
    show ?thesis using nm fi x fs tail True by (simp add: rest_def)
  next
    case False
    then have ie: "i < e" and bl: "IsBlend (p ! i)"
      and dg: "\<forall>k. i < k \<and> k < e \<longrightarrow> is_digit (p ! k)" using i(2) by auto
    define ds where "ds = take (e - i - 1) (drop (i + 1) p)"
    have tw: "takeWhile is_digit (drop (i + 1) p) = ds"
      unfolding ds_def
    proof (rule takeWhile_eq_take_P_nth)
      fix k assume "k < e - i - 1" "k < length (drop (i + 1) p)"
      then show "is_digit (drop (i + 1) p ! k)" using dg e_lt by simp
    next
      assume "e - i - 1 < length (drop (i + 1) p)"
      have "drop (i + 1) p ! (e - i - 1) = p ! e" using ie e_lt by simp
      then show "\<not> is_digit (drop (i + 1) p ! (e - i - 1))" using ec by simp
    qed
    have fs: "frame_suffix p = Some (p ! i, ds)"
      using i(1) i_lt bl tw by (simp add: frame_suffix_def)
    have alld: "\<forall>c \<in> set ds. is_digit c"
      using tw[symmetric] by (auto dest: set_takeWhileD)
    have fl: "frame_loop p (i + 1) 0 =
        (if digits_val ds \<le> INT_MAX then Inr (digits_val ds) else Inl SignedOverflow)"
      using frame_loop_spec[of "i + 1" p 0] i_lt tw
      by (simp add: INT_MAX_def Let_def digits_val_def)
    have fi: "FrameIndex p =
        (if digits_val ds \<le> INT_MAX then Inr (digits_val ds) else Inl SignedOverflow)"
      using i(1) i_lt bl fl by (simp add: FrameIndex_def)
    have "take e p = take i p @ p ! i # ds"
      unfolding ds_def using take_split[OF ie, of p] e_lt by simp
    then have raw: "p = take i p @ (p ! i # ds) @ rest"
      using tail by simp
    have "p = take i p @ (p ! i # decimal (nat (digits_val ds))) @ rest \<longleftrightarrow>
          decimal (nat (digits_val ds)) = ds"
    proof
      assume "p = take i p @ (p ! i # decimal (nat (digits_val ds))) @ rest"
      then have "take i p @ (p ! i # decimal (nat (digits_val ds))) @ rest =
                 take i p @ (p ! i # ds) @ rest"
        using raw by simp
      then show "decimal (nat (digits_val ds)) = ds" by simp
    next
      assume "decimal (nat (digits_val ds)) = ds"
      then show "p = take i p @ (p ! i # decimal (nat (digits_val ds))) @ rest"
        using raw by simp
    qed
    also have "\<dots> \<longleftrightarrow> canonical_digits ds"
    proof
      assume "decimal (nat (digits_val ds)) = ds"
      then show "canonical_digits ds" using decimal_canonical[of "nat (digits_val ds)"] by simp
    next
      assume "canonical_digits ds"
      then show "decimal (nat (digits_val ds)) = ds" by (rule decimal_digits_val[OF alld])
    qed
    finally have iff: "p = take i p @ (p ! i # decimal (nat (digits_val ds))) @ rest \<longleftrightarrow>
          canonical_digits ds" .
    show ?thesis
      apply (rule exI[of _ "take i p"], rule exI[of _ "is2x_marker p"])
      using nm x fs fi raw iff unfolding rest_def by simp
  qed
qed

theorem path_roundtrip_witness:
  "IsImage ''ship/fighter-3@2x.png'' = Inr True \<and>
   Name ''ship/fighter-3@2x.png'' = Inr ''ship/fighter'' \<and>
   Is2x ''ship/fighter-3@2x.png'' = Inr True \<and>
   frame_suffix ''ship/fighter-3@2x.png'' = Some (CHR ''-'', ''3'') \<and>
   FrameIndex ''ship/fighter-3@2x.png'' = Inr 3 \<and>
   canonical_digits ''3'' \<and>
   ''ship/fighter-3@2x.png'' =
     ''ship/fighter'' @ (CHR ''-'' # decimal (nat (digits_val ''3''))) @ ''@2x''
       @ drop (length ''ship/fighter-3@2x.png'' - 4) ''ship/fighter-3@2x.png''"
proof -
  have h: "IsImage ''ship/fighter-3@2x.png'' = Inr True"
    by code_simp
  have n: "Name ''ship/fighter-3@2x.png'' = Inr ''ship/fighter''"
    and x: "Is2x ''ship/fighter-3@2x.png'' = Inr True"
    and fs: "frame_suffix ''ship/fighter-3@2x.png'' = Some (CHR ''-'', ''3'')"
    by code_simp+
  have c: "canonical_digits ''3''" by (simp add: canonical_digits_def)
  have v: "digits_val ''3'' = 3" by (simp add: digits_val_def digit_value_def)
  obtain n' x' where a: "Name ''ship/fighter-3@2x.png'' = Inr n'"
      "Is2x ''ship/fighter-3@2x.png'' = Inr x'"
    and r: "case frame_suffix ''ship/fighter-3@2x.png'' of
        None \<Rightarrow> FrameIndex ''ship/fighter-3@2x.png'' = Inr 0
      | Some (b, ds) \<Rightarrow>
          FrameIndex ''ship/fighter-3@2x.png'' =
            (if digits_val ds \<le> INT_MAX then Inr (digits_val ds) else Inl SignedOverflow) \<and>
          (''ship/fighter-3@2x.png'' = n' @ (b # decimal (nat (digits_val ds)))
                 @ (if x' then ''@2x'' else [])
                 @ drop (length ''ship/fighter-3@2x.png'' - 4) ''ship/fighter-3@2x.png''
           \<longleftrightarrow> canonical_digits ds)"
    using path_roundtrip [OF h] by blast
  have e: "n' = ''ship/fighter''" "x' = True" using a n x by simp_all
  have fi: "FrameIndex ''ship/fighter-3@2x.png'' = Inr 3"
    using r by (simp add: fs v INT_MAX_def)
  have rt: "''ship/fighter-3@2x.png'' =
     ''ship/fighter'' @ (CHR ''-'' # decimal (nat (digits_val ''3''))) @ ''@2x''
       @ drop (length ''ship/fighter-3@2x.png'' - 4) ''ship/fighter-3@2x.png''"
    using r c unfolding fs e by simp
  show ?thesis using h n x fs fi c rt by blast
qed

text \<open>
  C2 as stated fails on a frame number written with a leading zero: the path
  \<open>a-01.png\<close> is accepted, its name is \<open>a\<close> and its frame index 1, and the parts put
  together give \<open>a-1.png\<close>.
\<close>

theorem path_roundtrip_counterexample:
  "IsImage ''a-01.png'' = Inr True \<and> Name ''a-01.png'' = Inr ''a'' \<and>
   FrameIndex ''a-01.png'' = Inr 1 \<and> Is2x ''a-01.png'' = Inr False \<and>
   frame_suffix ''a-01.png'' = Some (CHR ''-'', ''01'') \<and>
   ''a'' @ (CHR ''-'' # decimal (nat 1)) @ [] @ drop (length ''a-01.png'' - 4) ''a-01.png''
     \<noteq> ''a-01.png''"
  by code_simp

text \<open>
  C3 (as amended). \<open>IsImage\<close>, \<open>Is2x\<close>, \<open>IsDeferred\<close> and \<open>IsMasked\<close> return for every
  string without a read out of bounds, and return false on a string that is too short.
  \<open>Name\<close> and \<open>FrameIndex\<close> do so for every string of at least four characters
  (\<open>FrameIndex\<close> unless the frame number overflows \<open>int\<close>); on a shorter string the
  unsigned subtraction in \<open>NameEnd\<close> wraps around and the scan reads out of bounds.
\<close>

theorem path_functions_in_bounds:
  "(\<exists>b. IsImage p = Inr b) \<and> (length p < 4 \<longrightarrow> IsImage p = Inr False) \<and>
   (\<exists>b. Is2x p = Inr b) \<and> (length p < 7 \<longrightarrow> Is2x p = Inr False) \<and>
   (\<exists>b. IsDeferred p = Inr b) \<and> (length p < 5 \<longrightarrow> IsDeferred p = Inr False) \<and>
   (\<exists>b. IsMasked p = Inr b) \<and> (length p < 5 \<longrightarrow> IsMasked p = Inr False) \<and>
   (4 \<le> length p \<longrightarrow>
      (\<exists>n. Name p = Inr n) \<and>
      ((\<exists>k. FrameIndex p = Inr k) \<or> FrameIndex p = Inl SignedOverflow)) \<and>
   (length p < 4 \<longrightarrow> Name p = Inl OutOfBounds \<and> FrameIndex p = Inl OutOfBounds)"
proof -
  have "(\<exists>b. IsImage p = Inr b) \<and> (length p < 4 \<longrightarrow> IsImage p = Inr False)"
    by (simp add: IsImage_eq)
  moreover have "(\<exists>b. Is2x p = Inr b) \<and> (length p < 7 \<longrightarrow> Is2x p = Inr False)"
    by (simp add: Is2x_eq)
  moreover have "(\<exists>b. IsDeferred p = Inr b) \<and> (length p < 5 \<longrightarrow> IsDeferred p = Inr False)"
    by (simp add: IsDeferred_eq)
  moreover have "(\<exists>b. IsMasked p = Inr b) \<and> (length p < 5 \<longrightarrow> IsMasked p = Inr False)"
    by (simp add: IsMasked_eq)
  moreover have "4 \<le> length p \<longrightarrow>
      (\<exists>n. Name p = Inr n) \<and>
      ((\<exists>k. FrameIndex p = Inr k) \<or> FrameIndex p = Inl SignedOverflow)"
    using Name_FrameIndex_in_bounds by blast
  moreover have "length p < 4 \<longrightarrow> Name p = Inl OutOfBounds \<and> FrameIndex p = Inl OutOfBounds"
    by (simp add: Name_short FrameIndex_short)
  ultimately show ?thesis by blast
qed

theorem path_functions_in_bounds_witness:
  "4 \<le> length ''ship/fighter-3.png'' \<and>
   Name ''ship/fighter-3.png'' = Inr ''ship/fighter'' \<and>
   FrameIndex ''ship/fighter-3.png'' = Inr 3 \<and>
   length ''abc'' < 4 \<and> IsImage ''abc'' = Inr False \<and> Is2x ''abc'' = Inr False \<and>
   IsDeferred ''abc'' = Inr False \<and> IsMasked ''abc'' = Inr False \<and>
   Name ''abc'' = Inl OutOfBounds \<and> FrameIndex ''abc'' = Inl OutOfBounds"
proof -
  have a: "Name ''ship/fighter-3.png'' = Inr ''ship/fighter'' \<and>
           FrameIndex ''ship/fighter-3.png'' = Inr 3"
    by code_simp
  show ?thesis
    using path_functions_in_bounds [of "''abc''"] path_functions_in_bounds [of "''ship/fighter-3.png''"] a
    by simp
qed

text \<open>
  C3 as stated fails on the empty string: \<open>Name\<close> and \<open>FrameIndex\<close> index it out of
  bounds.
\<close>

theorem path_functions_in_bounds_counterexample:
  "Name [] = Inl OutOfBounds \<and> FrameIndex [] = Inl OutOfBounds"
  by (simp add: Name_short FrameIndex_short)

section \<open>The claims about Check, Load and Upload\<close>

lemma resize_length [simp]: "length (resize n d v) = n"
  by (simp add: resize_def)

lemma resize_Nil_nth: "i < n \<Longrightarrow> resize n d [] ! i = d"
  by (simp add: resize_def)

lemma read_ok_example: "read_ok example_ops paths i b k = (paths ! k \<noteq> [])"
  by (simp add: read_ok_def example_ops_def)

lemma read_ok_frame: "read_ok frame_ops paths i b k = (paths ! k \<noteq> [])"
  by (simp add: read_ok_def frame_ops_def)

lemma read_ok_failing: "\<not> read_ok failing_ops paths i b k"
  by (simp add: read_ok_def failing_ops_def)

lemma frame_ops_keeps_slots: "decoder_keeps_slots frame_ops frame_slot"
  by (simp add: decoder_keeps_slots_def frame_ops_def frame_slot_def)

lemma resize_same: "length v = n \<Longrightarrow> resize n d v = v"
  by (simp add: resize_def)

lemma upt_3: "[0..<3] = [0, 1, 2]"
  by (simp add: upt_rec)

lemma failed_slot_untouched:
  assumes H1: "\<forall>path j b. \<not> fst (Read ops path j b) \<longrightarrow> snd (Read ops path j b) = b"
    and H2: "\<forall>path j b i. i \<noteq> j \<longrightarrow> slot (snd (Read ops path j b)) i = slot b i"
    and f: "\<not> read_ok ops paths 0 b0 i"
  shows "slot (buffer_after ops paths 0 b0 m) i = slot b0 i"
proof (induction m)
  case 0
  then show ?case by simp
next
  case (Suc m)
  have s: "buffer_after ops paths 0 b0 (Suc m) =
           snd (Read ops (paths ! m) m (buffer_after ops paths 0 b0 m))"
    by (simp add: buffer_after_Suc)
  show ?case
  proof (cases "m = i")
    case True
    then have "\<not> fst (Read ops (paths ! m) m (buffer_after ops paths 0 b0 m))"
      using f by (simp add: read_ok_def)
    then have "buffer_after ops paths 0 b0 (Suc m) = buffer_after ops paths 0 b0 m"
      using H1 s by simp
    then show ?thesis using Suc by simp
  next
    case False
    then have "slot (buffer_after ops paths 0 b0 (Suc m)) i = slot (buffer_after ops paths 0 b0 m) i"
      using H2 s by simp
    then show ?thesis using Suc by simp
  qed
qed

text \<open>
  C8. \<open>Check\<close> writes the warning about extra @2x frames exactly when the @2x sequence
  is longer than the standard one, with the difference as the count; a missing-frame
  warning for exactly the standard indices whose path is empty; and, only when the
  @2x sequence is not empty, a missing-@2x-frame warning for exactly the standard
  indices whose @2x path is absent or empty; no warning is written twice. With three
  standard and four @2x paths, none empty, the output is the single warning of one
  extra frame. \<open>Check\<close> is a \<open>const\<close> member function: it returns the warnings and no
  new image set.
\<close>

theorem Check_warnings:
  "(ExtraFrames k \<in> set (Check s) \<longleftrightarrow>
      length (paths_1x s) < length (paths_2x s) \<and>
      k = length (paths_2x s) - length (paths_1x s)) \<and>
   (MissingFrame i \<in> set (Check s) \<longleftrightarrow> i < length (paths_1x s) \<and> paths_1x s ! i = []) \<and>
   (Missing2xFrame i \<in> set (Check s) \<longleftrightarrow>
      paths_2x s \<noteq> [] \<and> i < length (paths_1x s) \<and>
      (length (paths_2x s) \<le> i \<or> paths_2x s ! i = [])) \<and>
   distinct (Check s) \<and>
   (length (paths_1x s) = 3 \<and> length (paths_2x s) = 4 \<and>
    [] \<notin> set (paths_1x s) \<and> [] \<notin> set (paths_2x s) \<longrightarrow> Check s = [ExtraFrames 1])"
proof -
  have a: "ExtraFrames k \<in> set (Check s) \<longleftrightarrow>
      length (paths_1x s) < length (paths_2x s) \<and>
      k = length (paths_2x s) - length (paths_1x s)"
    by (auto simp add: Check_members check_frame_members)
  have b: "MissingFrame i \<in> set (Check s) \<longleftrightarrow> i < length (paths_1x s) \<and> paths_1x s ! i = []"
    by (auto simp add: Check_members check_frame_members)
  have c: "Missing2xFrame i \<in> set (Check s) \<longleftrightarrow>
      paths_2x s \<noteq> [] \<and> i < length (paths_1x s) \<and>
      (length (paths_2x s) \<le> i \<or> paths_2x s ! i = [])"
    by (auto simp add: Check_members check_frame_members)
  show ?thesis using a b c distinct_Check Check_populated by blast
qed

theorem Check_warnings_witness:
  "length (paths_1x example_ship) = 3 \<and> length (paths_2x example_ship) = 4 \<and>
   [] \<notin> set (paths_1x example_ship) \<and> [] \<notin> set (paths_2x example_ship) \<and>
   Check example_ship = [ExtraFrames 1] \<and>
   ExtraFrames 1 \<in> set (Check example_ship) \<and>
   MissingFrame 1 \<in> set (Check example_gap) \<and>
   MissingFrame 0 \<notin> set (Check example_gap) \<and>
   Missing2xFrame 1 \<notin> set (Check example_gap)"
proof -
  have h: "length (paths_1x example_ship) = 3 \<and> length (paths_2x example_ship) = 4 \<and>
     [] \<notin> set (paths_1x example_ship) \<and> [] \<notin> set (paths_2x example_ship)"
    by (simp add: example_ship_def new_ImageSet_def)
  have g: "paths_1x example_gap = [''ship/x-0.png'', [], ''ship/x-2.png'']"
    "paths_2x example_gap = []"
    by (simp_all add: example_gap_def new_ImageSet_def)
  show ?thesis
    using h Check_warnings [of 1 example_ship 0] Check_warnings [of 0 example_gap 1]
      Check_warnings [of 0 example_gap 0] g
    by simp
qed

text \<open>
  C5. \<open>Load\<close> returns, and the reads of @2x paths it makes are, in order, those of the
  frames below the smaller of the two path counts: a @2x path at an index at or above
  the standard frame count is never read.
\<close>

theorem Load_ignores_excess_2x:
  "\<exists>s' tr. Load ops s = Inr (s', tr) \<and>
     filter (is_read True) tr =
       map (\<lambda>i. ReadCall True (paths_2x s ! i) i)
         [0..<min (length (paths_1x s)) (length (paths_2x s))] \<and>
     (\<forall>path i. ReadCall True path i \<in> set tr \<longrightarrow>
        i < length (paths_1x s) \<and> i < length (paths_2x s) \<and> path = paths_2x s ! i)"
proof -
  obtain s' tr where L: "Load ops s = Inr (s', tr)"
    and f: "filter (is_read True) tr =
       map (\<lambda>i. ReadCall True (paths_2x s ! i) i)
         [0..<min (length (paths_1x s)) (length (paths_2x s))]"
    using Load_result[of ops s] by blast
  have "\<forall>path i. ReadCall True path i \<in> set tr \<longrightarrow>
        i < length (paths_1x s) \<and> i < length (paths_2x s) \<and> path = paths_2x s ! i"
  proof (intro allI impI)
    fix path i assume "ReadCall True path i \<in> set tr"
    then have "ReadCall True path i \<in> set (filter (is_read True) tr)" by simp
    then show "i < length (paths_1x s) \<and> i < length (paths_2x s) \<and> path = paths_2x s ! i"
      unfolding f by auto
  qed
  then show ?thesis using L f by blast
qed

theorem Load_ignores_excess_2x_witness:
  "\<exists>s' tr. Load example_ops example_ship = Inr (s', tr) \<and>
     filter (is_read True) tr =
       [ReadCall True ''ship/x-0@2x.png'' 0, ReadCall True ''ship/x-1@2x.png'' 1,
        ReadCall True ''ship/x-2@2x.png'' 2] \<and>
     ReadCall True ''ship/x-2@2x.png'' 2 \<in> set tr \<and>
     ReadCall True ''ship/x-3@2x.png'' 3 \<notin> set tr"
proof -
  have p: "paths_1x example_ship = [''ship/x-0.png'', ''ship/x-1.png'', ''ship/x-2.png'']"
    "paths_2x example_ship = [''ship/x-0@2x.png'', ''ship/x-1@2x.png'', ''ship/x-2@2x.png'',
                     ''ship/x-3@2x.png'']"
    by (simp_all add: example_ship_def new_ImageSet_def)
  obtain s' tr where L: "Load example_ops example_ship = Inr (s', tr)"
    and f: "filter (is_read True) tr =
       map (\<lambda>i. ReadCall True (paths_2x example_ship ! i) i)
         [0..<min (length (paths_1x example_ship)) (length (paths_2x example_ship))]"
    and n: "\<forall>path i. ReadCall True path i \<in> set tr \<longrightarrow>
        i < length (paths_1x example_ship) \<and> i < length (paths_2x example_ship) \<and>
        path = paths_2x example_ship ! i"
    using Load_ignores_excess_2x [of example_ops example_ship] by blast
  have f': "filter (is_read True) tr =
       [ReadCall True ''ship/x-0@2x.png'' 0, ReadCall True ''ship/x-1@2x.png'' 1,
        ReadCall True ''ship/x-2@2x.png'' 2]"
    using f by (simp add: p upt_3)
  have "ReadCall True ''ship/x-2@2x.png'' 2 \<in> set (filter (is_read True) tr)"
    unfolding f' by simp
  then have i: "ReadCall True ''ship/x-2@2x.png'' 2 \<in> set tr" by simp
  have o: "ReadCall True ''ship/x-3@2x.png'' 3 \<notin> set tr"
    using n[rule_format, of "''ship/x-3@2x.png''" 3] by (auto simp add: p)
  show ?thesis using L f' i o by blast
qed

text \<open>
  C7 (as amended). \<open>Load\<close> returns. It calls the mask construction for frame \<open>i\<close>
  exactly when the name is of a masked category and the read of frame \<open>i\<close> reported
  success. It reads every standard frame, in order, whatever the earlier reads
  reported, and the distance field is generated afterwards, from the buffer and masks
  so obtained. In a masked set a frame whose read fails keeps the mask it had after
  \<open>masks.resize(frames)\<close>: the default mask when the set held no masks before \<open>Load\<close>
  (as constructed, or after \<open>Upload\<close>), the mask it held before otherwise. \<open>Load\<close>
  changes the standard buffer by \<open>Clear\<close> and by these reads only, so the slot of a
  frame whose read fails is as \<open>Clear\<close> left it for a decoder whose failed read leaves
  the buffer as it was and whose read of one frame leaves the slots of the others as
  they were.
\<close>

theorem Load_masks_and_failures:
  "\<exists>s' tr mk. Load ops s = Inr (s', tr) \<and> IsMasked (name s) = Inr mk \<and>
     (\<forall>i. CreateCall i \<in> set tr \<longleftrightarrow>
        i < length (paths_1x s) \<and> mk \<and>
        read_ok ops (paths_1x s) 0 (Clear ops (length (paths_1x s)) (buffer_1x s)) i) \<and>
     filter (is_read False) tr =
       map (\<lambda>i. ReadCall False (paths_1x s ! i) i) [0..<length (paths_1x s)] \<and>
     buffer_1x s' =
       buffer_after ops (paths_1x s) 0 (Clear ops (length (paths_1x s)) (buffer_1x s))
         (length (paths_1x s)) \<and>
     (mk \<longrightarrow> length (masks s') = length (paths_1x s) \<and>
        (\<forall>i < length (paths_1x s). masks s' ! i =
           (if read_ok ops (paths_1x s) 0 (Clear ops (length (paths_1x s)) (buffer_1x s)) i
            then Create ops
                   (buffer_after ops (paths_1x s) 0
                      (Clear ops (length (paths_1x s)) (buffer_1x s)) (Suc i)) i
            else resize (length (paths_1x s)) (Mask []) (masks s) ! i))) \<and>
     (mk \<and> masks s = [] \<longrightarrow>
        (\<forall>i < length (paths_1x s).
           \<not> read_ok ops (paths_1x s) 0 (Clear ops (length (paths_1x s)) (buffer_1x s)) i \<longrightarrow>
           masks s' ! i = Mask [])) \<and>
     (decoder_keeps_slots ops slot \<longrightarrow>
        (\<forall>i < length (paths_1x s).
           \<not> read_ok ops (paths_1x s) 0 (Clear ops (length (paths_1x s)) (buffer_1x s)) i \<longrightarrow>
           slot (buffer_1x s') i = slot (Clear ops (length (paths_1x s)) (buffer_1x s)) i)) \<and>
     distances s' = GenerateDistances ops (buffer_1x s') (masks s') (distances s)"
proof -
  define n where "n = length (paths_1x s)"
  define b0 where "b0 = Clear ops n (buffer_1x s)"
  obtain s' tr mk where L: "Load ops s = Inr (s', tr)" and im: "IsMasked (name s) = Inr mk"
    and b: "buffer_1x s' = buffer_after ops (paths_1x s) 0 b0 n"
    and lm: "length (masks s') = length (if mk then resize n (Mask []) (masks s) else masks s)"
    and mm: "\<forall>k < length (masks s'). masks s' ! k =
        (if k < n \<and> mk \<and> read_ok ops (paths_1x s) 0 b0 k
         then Create ops (buffer_after ops (paths_1x s) 0 b0 (Suc k)) k
         else (if mk then resize n (Mask []) (masks s) else masks s) ! k)"
    and ds: "distances s' = GenerateDistances ops (buffer_1x s') (masks s') (distances s)"
    and f1: "filter (is_read False) tr = map (\<lambda>k. ReadCall False (paths_1x s ! k) k) [0..<n]"
    and cc: "\<forall>k. CreateCall k \<in> set tr \<longleftrightarrow> k < n \<and> mk \<and> read_ok ops (paths_1x s) 0 b0 k"
    using Load_result[of ops s] unfolding n_def[symmetric] b0_def[symmetric] by blast
  have m1: "mk \<longrightarrow> length (masks s') = n \<and>
        (\<forall>i < n. masks s' ! i =
           (if read_ok ops (paths_1x s) 0 b0 i
            then Create ops (buffer_after ops (paths_1x s) 0 b0 (Suc i)) i
            else resize n (Mask []) (masks s) ! i))"
    using lm mm by simp
  have m2: "mk \<and> masks s = [] \<longrightarrow>
        (\<forall>i < n. \<not> read_ok ops (paths_1x s) 0 b0 i \<longrightarrow> masks s' ! i = Mask [])"
    using m1 by (simp add: resize_Nil_nth)
  have m3: "decoder_keeps_slots ops slot \<longrightarrow>
        (\<forall>i < n. \<not> read_ok ops (paths_1x s) 0 b0 i \<longrightarrow> slot (buffer_1x s') i = slot b0 i)"
    unfolding b decoder_keeps_slots_def
    using failed_slot_untouched[of ops slot "paths_1x s" b0 _ n] by blast
  show ?thesis
    apply (rule exI[of _ s'], rule exI[of _ tr], rule exI[of _ mk])
    using L im cc f1 b m1 m2 m3 ds unfolding n_def b0_def by blast
qed

theorem Load_masks_and_failures_witness:
  "\<exists>s' tr. Load frame_ops example_frames = Inr (s', tr) \<and>
     IsMasked (name example_frames) = Inr True \<and>
     masks example_frames = [] \<and>
     decoder_keeps_slots frame_ops frame_slot \<and>
     CreateCall 0 \<in> set tr \<and> CreateCall 1 \<notin> set tr \<and> CreateCall 2 \<in> set tr \<and>
     filter (is_read False) tr =
       [ReadCall False ''ship/x-0.png'' 0, ReadCall False [] 1, ReadCall False ''ship/x-2.png'' 2] \<and>
     length (masks s') = 3 \<and> masks s' ! 1 = Mask [] \<and>
     frame_slot (buffer_1x s') 1 = [] \<and>
     distances s' = GenerateDistances frame_ops (buffer_1x s') (masks s') (distances example_frames)"
proof -
  have p: "paths_1x example_frames = [''ship/x-0.png'', [], ''ship/x-2.png'']"
    "masks example_frames = []" "name example_frames = ''ship/x''"
    by (simp_all add: example_frames_def new_ImageSet_def)
  have im: "IsMasked (name example_frames) = Inr True"
    by (simp add: p IsMasked_eq)
  obtain s' tr mk where L: "Load frame_ops example_frames = Inr (s', tr)"
    and im': "IsMasked (name example_frames) = Inr mk"
    and cc: "\<forall>i. CreateCall i \<in> set tr \<longleftrightarrow>
        i < length (paths_1x example_frames) \<and> mk \<and>
        read_ok frame_ops (paths_1x example_frames) 0
          (Clear frame_ops (length (paths_1x example_frames)) (buffer_1x example_frames)) i"
    and f1: "filter (is_read False) tr =
       map (\<lambda>i. ReadCall False (paths_1x example_frames ! i) i)
         [0..<length (paths_1x example_frames)]"
    and m1: "mk \<longrightarrow> length (masks s') = length (paths_1x example_frames)"
    and m2: "mk \<and> masks example_frames = [] \<longrightarrow>
        (\<forall>i < length (paths_1x example_frames).
           \<not> read_ok frame_ops (paths_1x example_frames) 0
               (Clear frame_ops (length (paths_1x example_frames)) (buffer_1x example_frames)) i \<longrightarrow>
           masks s' ! i = Mask [])"
    and m3: "decoder_keeps_slots frame_ops frame_slot \<longrightarrow>
        (\<forall>i < length (paths_1x example_frames).
           \<not> read_ok frame_ops (paths_1x example_frames) 0
               (Clear frame_ops (length (paths_1x example_frames)) (buffer_1x example_frames)) i \<longrightarrow>
           frame_slot (buffer_1x s') i =
           frame_slot
             (Clear frame_ops (length (paths_1x example_frames)) (buffer_1x example_frames)) i)"
    and ds: "distances s' =
       GenerateDistances frame_ops (buffer_1x s') (masks s') (distances example_frames)"
    using Load_masks_and_failures [of frame_ops example_frames frame_slot] by blast
  have mk: "mk" using im im' by simp
  have c0: "CreateCall 0 \<in> set tr" "CreateCall 1 \<notin> set tr" "CreateCall 2 \<in> set tr"
    using cc mk by (simp_all add: p read_ok_frame)
  have f: "filter (is_read False) tr =
       [ReadCall False ''ship/x-0.png'' 0, ReadCall False [] 1, ReadCall False ''ship/x-2.png'' 2]"
    using f1 by (simp add: p upt_3)
  have l: "length (masks s') = 3" using m1 mk by (simp add: p)
  have d: "masks s' ! 1 = Mask []"
    using m2[rule_format, of 1] mk by (simp add: p read_ok_frame)
  have "frame_slot (buffer_1x s') 1 =
        frame_slot (Clear frame_ops (length (paths_1x example_frames)) (buffer_1x example_frames)) 1"
    using m3[rule_format, OF frame_ops_keeps_slots, of 1] by (simp add: p read_ok_frame)
  also have "\<dots> = []" by (simp add: p frame_ops_def frame_slot_def)
  finally have e: "frame_slot (buffer_1x s') 1 = []" .
  show ?thesis using L im p(2) frame_ops_keeps_slots c0 f l d e ds by blast
qed

text \<open>
  C7 as stated fails for an image set that holds masks when \<open>Load\<close> is called:
  \<open>masks.resize(frames)\<close> keeps them, and nothing resets the mask of a frame whose
  read fails. The image set with the frames 0 and 2 is loaded; the masks of these
  frames are then the square. It is loaded again, by a decoder that finds no file:
  the three reads are made, all fail, no mask is constructed, and the mask of frame 0
  is still the square, not the default mask. Nor does \<open>Load\<close> itself reset the pixels
  of a frame whose read fails: with a decoder that writes into the slot before it
  fails, the slot of the failed frame 1 is not as \<open>Clear\<close> left it.
\<close>

theorem Load_masks_and_failures_counterexample:
  "\<exists>s1 t1 s2 t2 s3 t3.
     Load example_ops example_gap = Inr (s1, t1) \<and>
     length (masks s1) = 3 \<and>
     masks s1 ! 0 = Mask [Point (- 1) (- 1), Point 1 (- 1), Point 1 1, Point (- 1) 1] \<and>
     Load failing_ops s1 = Inr (s2, t2) \<and>
     IsMasked (name s1) = Inr True \<and>
     filter (is_read False) t2 =
       [ReadCall False ''ship/x-0.png'' 0, ReadCall False [] 1, ReadCall False ''ship/x-2.png'' 2] \<and>
     \<not> read_ok failing_ops (paths_1x s1) 0
         (Clear failing_ops (length (paths_1x s1)) (buffer_1x s1)) 0 \<and>
     CreateCall 0 \<notin> set t2 \<and>
     masks s2 ! 0 = Mask [Point (- 1) (- 1), Point 1 (- 1), Point 1 1, Point (- 1) 1] \<and>
     masks s2 ! 0 \<noteq> Mask [] \<and>
     Load scribbling_ops example_frames = Inr (s3, t3) \<and>
     \<not> read_ok scribbling_ops (paths_1x example_frames) 0
         (Clear scribbling_ops (length (paths_1x example_frames)) (buffer_1x example_frames)) 1 \<and>
     frame_slot
       (Clear scribbling_ops (length (paths_1x example_frames)) (buffer_1x example_frames)) 1 = [] \<and>
     frame_slot (buffer_1x s3) 1 = ''partial''"
proof -
  define sq where "sq = [Point (- 1) (- 1), Point 1 (- 1), Point 1 1, Point (- 1) 1]"
  have p: "paths_1x example_gap = [''ship/x-0.png'', [], ''ship/x-2.png'']"
    "masks example_gap = []" "name example_gap = ''ship/x''"
    by (simp_all add: example_gap_def new_ImageSet_def)
  have im: "IsMasked ''ship/x'' = Inr True" by (simp add: IsMasked_eq)
  txt \<open>The first \<open>Load\<close>, with a decoder that reads the frames 0 and 2.\<close>
  obtain s1 t1 mk where L1: "Load example_ops example_gap = Inr (s1, t1)"
    and im1: "IsMasked (name example_gap) = Inr mk"
    and nm1: "name s1 = name example_gap" and p1: "paths_1x s1 = paths_1x example_gap"
    and lm1: "length (masks s1) =
        length (if mk then resize (length (paths_1x example_gap)) (Mask []) (masks example_gap)
                else masks example_gap)"
    and mm1: "\<forall>k < length (masks s1). masks s1 ! k =
        (if k < length (paths_1x example_gap) \<and> mk \<and>
            read_ok example_ops (paths_1x example_gap) 0
              (Clear example_ops (length (paths_1x example_gap)) (buffer_1x example_gap)) k
         then Create example_ops
                (buffer_after example_ops (paths_1x example_gap) 0
                   (Clear example_ops (length (paths_1x example_gap)) (buffer_1x example_gap))
                   (Suc k)) k
         else (if mk then resize (length (paths_1x example_gap)) (Mask []) (masks example_gap)
               else masks example_gap) ! k)"
    using Load_result[of example_ops example_gap] by blast
  have mk: "mk" using im1 im by (simp add: p)
  have l1: "length (masks s1) = 3" using lm1 mk by (simp add: p)
  have cr: "\<And>b i. Create example_ops b i = Mask sq"
    by (simp add: example_ops_def sq_def)
  have m10: "masks s1 ! 0 = Mask sq"
    using mm1[rule_format, of 0] l1 mk by (simp add: p read_ok_example cr)
  txt \<open>The second \<open>Load\<close> of the same image set, with a decoder that finds no file.\<close>
  obtain s2 t2 mk2 where L2: "Load failing_ops s1 = Inr (s2, t2)"
    and im2: "IsMasked (name s1) = Inr mk2"
    and lm2: "length (masks s2) =
        length (if mk2 then resize (length (paths_1x s1)) (Mask []) (masks s1) else masks s1)"
    and mm2: "\<forall>k < length (masks s2). masks s2 ! k =
        (if k < length (paths_1x s1) \<and> mk2 \<and>
            read_ok failing_ops (paths_1x s1) 0
              (Clear failing_ops (length (paths_1x s1)) (buffer_1x s1)) k
         then Create failing_ops
                (buffer_after failing_ops (paths_1x s1) 0
                   (Clear failing_ops (length (paths_1x s1)) (buffer_1x s1)) (Suc k)) k
         else (if mk2 then resize (length (paths_1x s1)) (Mask []) (masks s1) else masks s1) ! k)"
    and f2: "filter (is_read False) t2 =
        map (\<lambda>k. ReadCall False (paths_1x s1 ! k) k) [0..<length (paths_1x s1)]"
    and cc2: "\<forall>k. CreateCall k \<in> set t2 \<longleftrightarrow>
        k < length (paths_1x s1) \<and> mk2 \<and>
        read_ok failing_ops (paths_1x s1) 0
          (Clear failing_ops (length (paths_1x s1)) (buffer_1x s1)) k"
    using Load_result[of failing_ops s1] by blast
  have im2': "IsMasked (name s1) = Inr True" using im by (simp add: nm1 p)
  have mk2: "mk2" using im2 im2' by simp
  have l2: "length (masks s2) = 3" using lm2 mk2 by (simp add: p1 p)
  have rs: "resize (length (paths_1x s1)) (Mask []) (masks s1) = masks s1"
    by (rule resize_same) (simp add: l1 p1 p)
  have m20: "masks s2 ! 0 = Mask sq"
    using mm2[rule_format, of 0] l2 m10 mk2 by (simp add: read_ok_failing rs)
  have f2': "filter (is_read False) t2 =
       [ReadCall False ''ship/x-0.png'' 0, ReadCall False [] 1, ReadCall False ''ship/x-2.png'' 2]"
    using f2 by (simp add: p1 p upt_3)
  have c2: "CreateCall 0 \<notin> set t2" using cc2 by (simp add: read_ok_failing)
  have ne: "masks s2 ! 0 \<noteq> Mask []" unfolding m20 by (simp add: sq_def)
  txt \<open>A \<open>Load\<close> with a decoder that writes into the slot of a frame before it fails.\<close>
  have q: "paths_1x example_frames = [''ship/x-0.png'', [], ''ship/x-2.png'']"
    by (simp add: example_frames_def new_ImageSet_def)
  obtain s3 t3 where L3: "Load scribbling_ops example_frames = Inr (s3, t3)"
    and b3: "buffer_1x s3 =
       buffer_after scribbling_ops (paths_1x example_frames) 0
         (Clear scribbling_ops (length (paths_1x example_frames)) (buffer_1x example_frames))
         (length (paths_1x example_frames))"
    using Load_result[of scribbling_ops example_frames] by blast
  have r3: "\<not> read_ok scribbling_ops (paths_1x example_frames) 0
         (Clear scribbling_ops (length (paths_1x example_frames)) (buffer_1x example_frames)) 1"
    by (simp add: read_ok_def q scribbling_ops_def frame_ops_def)
  have c3: "frame_slot
       (Clear scribbling_ops (length (paths_1x example_frames)) (buffer_1x example_frames)) 1 = []"
    by (simp add: q scribbling_ops_def frame_ops_def frame_slot_def)
  have s3: "frame_slot (buffer_1x s3) 1 = ''partial''"
    unfolding b3
    by (simp add: q buffer_after_def upt_3 scribbling_ops_def frame_ops_def frame_slot_def)
  show ?thesis
    using L1 l1 m10 L2 im2' f2' read_ok_failing c2 m20 ne L3 r3 c3 s3 unfolding sq_def by blast
qed

text \<open>
  C4 (as amended). \<open>Load\<close> returns. For an image set of a masked category with at
  least one standard path, the distance field then has \<open>(W / 2) * (H / 2) * n\<close> entries,
  \<open>n\<close> the number of standard paths and \<open>W\<close> and \<open>H\<close> the dimensions of the standard
  buffer. An image set of another category gets no masks, and whenever the set has no
  masks after the reads \<open>GenerateDistances\<close> returns at once and the distance field is
  what it was before.
\<close>

theorem Load_distances_length:
  "\<exists>s' tr mk. Load ops s = Inr (s', tr) \<and> IsMasked (name s) = Inr mk \<and>
     (mk \<and> 0 < length (paths_1x s) \<longrightarrow>
        length (distances s') =
          (Width ops (buffer_1x s') div 2) * (Height ops (buffer_1x s') div 2) *
            length (paths_1x s)) \<and>
     (\<not> mk \<longrightarrow> masks s' = masks s) \<and>
     (masks s' = [] \<longrightarrow> distances s' = distances s)"
proof -
  define n where "n = length (paths_1x s)"
  obtain s' tr mk where L: "Load ops s = Inr (s', tr)" and im: "IsMasked (name s) = Inr mk"
    and lm: "length (masks s') = length (if mk then resize n (Mask []) (masks s) else masks s)"
    and mm: "\<forall>k < length (masks s'). masks s' ! k =
        (if k < n \<and> mk \<and>
            read_ok ops (paths_1x s) 0 (Clear ops n (buffer_1x s)) k
         then Create ops (buffer_after ops (paths_1x s) 0 (Clear ops n (buffer_1x s)) (Suc k)) k
         else (if mk then resize n (Mask []) (masks s) else masks s) ! k)"
    and ds: "distances s' = GenerateDistances ops (buffer_1x s') (masks s') (distances s)"
    using Load_result[of ops s] unfolding n_def[symmetric] by blast
  have a: "mk \<and> 0 < n \<longrightarrow>
        length (distances s') =
          (Width ops (buffer_1x s') div 2) * (Height ops (buffer_1x s') div 2) * n"
  proof
    assume h: "mk \<and> 0 < n"
    then have "length (masks s') = n" using lm by simp
    then have "masks s' \<noteq> []" "length (masks s') = n" using h by auto
    then show "length (distances s') =
          (Width ops (buffer_1x s') div 2) * (Height ops (buffer_1x s') div 2) * n"
      using ds by (simp add: GenerateDistances_length field_width_def field_height_def)
  qed
  have b: "\<not> mk \<longrightarrow> masks s' = masks s"
    using lm mm by (auto intro: nth_equalityI)
  have c: "masks s' = [] \<longrightarrow> distances s' = distances s"
    using ds by simp
  show ?thesis
    apply (rule exI[of _ s'], rule exI[of _ tr], rule exI[of _ mk])
    using L im a b c unfolding n_def by blast
qed

theorem Load_distances_length_witness:
  "\<exists>s' tr. Load example_ops example_ship = Inr (s', tr) \<and>
     IsMasked (name example_ship) = Inr True \<and> 0 < length (paths_1x example_ship) \<and>
     length (distances s') =
       (Width example_ops (buffer_1x s') div 2) * (Height example_ops (buffer_1x s') div 2) * 3"
proof -
  have p: "paths_1x example_ship = [''ship/x-0.png'', ''ship/x-1.png'', ''ship/x-2.png'']"
    "name example_ship = ''ship/x''"
    by (simp_all add: example_ship_def new_ImageSet_def)
  have im: "IsMasked (name example_ship) = Inr True"
    by (simp add: p IsMasked_eq)
  show ?thesis
    using Load_distances_length [of example_ops example_ship] im
    by (auto simp add: p)
qed

text \<open>
  C4 as stated fails for an image set that is not of a masked category: the outfit
  with one frame of 4 by 4 pixels has an empty distance field after \<open>Load\<close>, not one of
  \<open>2 * 2 * 1\<close> entries.
\<close>

theorem Load_distances_length_counterexample:
  "Load example_ops example_outfit =
     Inr (example_outfit\<lparr>buffer_1x := (4, 4), buffer_2x := (0, 0)\<rparr>,
          [ReadCall False ''outfit/x.png'' 0]) \<and>
   IsMasked (name example_outfit) = Inr False \<and>
   length (paths_1x example_outfit) = 1 \<and>
   Width example_ops (4, 4) div 2 * (Height example_ops (4, 4) div 2) * 1 = 4 \<and>
   length (distances (example_outfit\<lparr>buffer_1x := (4, 4), buffer_2x := (0, 0)\<rparr>)) = 0"
proof -
  have p: "paths_1x example_outfit = [''outfit/x.png'']" "paths_2x example_outfit = []"
    "name example_outfit = ''outfit/x''" "masks example_outfit = []"
    "distances example_outfit = []"
    by (simp_all add: example_outfit_def new_ImageSet_def)
  have im: "IsMasked (name example_outfit) = Inr False"
    by (simp add: p IsMasked_eq)
  have L: "Load example_ops example_outfit =
     Inr (example_outfit\<lparr>buffer_1x := (4, 4), buffer_2x := (0, 0)\<rparr>,
          [ReadCall False ''outfit/x.png'' 0])"
    by (simp add: Load_def example_outfit_def new_ImageSet_def IsMasked_eq
        load_1x.simps load_2x.simps example_ops_def)
  show ?thesis using L im by (simp add: p example_ops_def)
qed



section \<open>The claims about the distance field\<close>

lemma square_no_consecutive_equal:
  "no_consecutive_equal [Point (- 1) (- 1), Point 1 (- 1), Point 1 1, Point (- 1) 1]"
  by (simp add: no_consecutive_equal_def upt_rec)

lemma example_field:
  "field_width example_ops (4, 4) = 2" "field_height example_ops (4, 4) = 2"
  by (simp_all add: field_width_def field_height_def example_ops_def)

text \<open>
  C6. In the distance field that \<open>GenerateDistances\<close> produces for a non-empty list of
  masks, with \<open>w\<close> and \<open>h\<close> half the width and height of the image, the field has
  \<open>w * h\<close> entries for each frame; the entries of the slot of a frame with an empty
  outline are all \<open>+infinity\<close>; and the value of the pixel \<open>(x, y)\<close> of a frame \<open>k\<close>
  with an outline is at the offset \<open>k * (w * h) + y * w + x\<close>, whatever the outlines of
  the frames before it.
\<close>

theorem empty_outline_slot:
  assumes "k < length ms"
  shows "length (GenerateDistances ops img ms ds) =
           field_width ops img * field_height ops img * length ms \<and>
     (Outline (ms ! k) = [] \<longrightarrow>
        (\<forall>j < field_width ops img * field_height ops img.
           GenerateDistances ops img ms ds !
             (k * (field_width ops img * field_height ops img) + j) = PosInf)) \<and>
     (Outline (ms ! k) \<noteq> [] \<longrightarrow>
        (\<forall>x < field_width ops img. \<forall>y < field_height ops img.
           GenerateDistances ops img ms ds !
             (k * (field_width ops img * field_height ops img) + y * field_width ops img + x) =
           pixel_value ops (ms ! k) (field_center ops img) (field_normalize ops img) x y))"
proof -
  define w where "w = field_width ops img"
  define h where "h = field_height ops img"
  have ne: "ms \<noteq> []" using assms by auto
  have a: "length (GenerateDistances ops img ms ds) = w * h * length ms"
    unfolding w_def h_def by (rule GenerateDistances_length[OF ne])
  have b: "Outline (ms ! k) = [] \<longrightarrow>
        (\<forall>j < w * h. GenerateDistances ops img ms ds ! (k * (w * h) + j) = PosInf)"
  proof (intro impI allI)
    fix j assume e: "Outline (ms ! k) = []" and j: "j < w * h"
    have w0: "0 < w" using j by (cases "w = 0") auto
    have x: "j mod w < w" using w0 by simp
    have y: "j div w < h" using j w0 by (simp add: less_mult_imp_div_less mult.commute)
    have "GenerateDistances ops img ms ds ! (k * (w * h) + (j div w) * w + j mod w) = PosInf"
      using GenerateDistances_nth[OF ne assms, of "j mod w" ops img "j div w" ds] x y e
      by (simp add: w_def h_def)
    then show "GenerateDistances ops img ms ds ! (k * (w * h) + j) = PosInf"
      by (simp add: add.assoc)
  qed
  have c: "Outline (ms ! k) \<noteq> [] \<longrightarrow>
        (\<forall>x < w. \<forall>y < h.
           GenerateDistances ops img ms ds ! (k * (w * h) + y * w + x) =
           pixel_value ops (ms ! k) (field_center ops img) (field_normalize ops img) x y)"
    using GenerateDistances_nth[OF ne assms, of _ ops img _ ds] by (simp add: w_def h_def)
  show ?thesis using a b c unfolding w_def h_def by blast
qed

theorem empty_outline_slot_witness:
  "0 < length [Mask [], Mask [Point (- 1) (- 1), Point 1 (- 1), Point 1 1, Point (- 1) 1]] \<and>
   length (GenerateDistances example_ops (4, 4)
             [Mask [], Mask [Point (- 1) (- 1), Point 1 (- 1), Point 1 1, Point (- 1) 1]] []) = 8 \<and>
   GenerateDistances example_ops (4, 4)
     [Mask [], Mask [Point (- 1) (- 1), Point 1 (- 1), Point 1 1, Point (- 1) 1]] [] ! 3 = PosInf"
proof -
  have k: "0 < length [Mask [], Mask [Point (- 1) (- 1), Point 1 (- 1), Point 1 1, Point (- 1) 1]]"
    by simp
  show ?thesis
    using empty_outline_slot [OF k, of example_ops "(4, 4)" "[]"]
    by (simp add: example_field)
qed

text \<open>
  C10. The loop over an outline visits the pairs \<open>loop_pairs\<close> of \<open>prev\<close> and \<open>cur\<close>. When
  no point of the outline equals its successor (the first being the successor of the
  last), the divisor \<open>segment.LengthSquared()\<close> is not zero at any iteration, and the
  quotient \<open>t\<close> is a finite number. (Squares of real numbers do not underflow.)
\<close>

theorem no_zero_divisor:
  assumes "no_consecutive_equal outline"
  shows "segment_loop p (last outline) outline c =
           fold (\<lambda>(prev, cur). segment_step p prev cur) (loop_pairs (last outline) outline) c \<and>
     (\<forall>(prev, cur) \<in> set (loop_pairs (last outline) outline).
        LengthSquared (point_sub cur prev) \<noteq> 0 \<and>
        fdiv (Dot (point_sub p prev) (point_sub cur prev)) (LengthSquared (point_sub cur prev)) =
          Finite (proj_t p prev cur))"
proof (cases "outline = []")
  case True
  then show ?thesis by simp
next
  case False
  have "\<forall>(a, b) \<in> set (loop_pairs (last outline) outline). a \<noteq> b"
    by (rule edges_distinct_ends[OF False assms])
  then have "\<forall>(prev, cur) \<in> set (loop_pairs (last outline) outline).
        LengthSquared (point_sub cur prev) \<noteq> 0 \<and>
        fdiv (Dot (point_sub p prev) (point_sub cur prev)) (LengthSquared (point_sub cur prev)) =
          Finite (proj_t p prev cur)"
    using LengthSquared_pos by (fastforce simp add: fdiv_def proj_t_def)
  then show ?thesis using segment_loop_fold by blast
qed

theorem no_zero_divisor_witness:
  "no_consecutive_equal [Point (- 1) (- 1), Point 1 (- 1), Point 1 1, Point (- 1) 1] \<and>
   loop_pairs (last [Point (- 1) (- 1), Point 1 (- 1), Point 1 1, Point (- 1) 1])
     [Point (- 1) (- 1), Point 1 (- 1), Point 1 1, Point (- 1) 1] ! 0 = (Point (- 1) 1, Point (- 1) (- 1)) \<and>
   LengthSquared (point_sub (Point (- 1) (- 1)) (Point (- 1) 1)) \<noteq> 0 \<and>
   fdiv (Dot (point_sub (Point 0 0) (Point (- 1) 1)) (point_sub (Point (- 1) (- 1)) (Point (- 1) 1)))
        (LengthSquared (point_sub (Point (- 1) (- 1)) (Point (- 1) 1))) =
     Finite (proj_t (Point 0 0) (Point (- 1) 1) (Point (- 1) (- 1)))"
proof -
  have "(Point (- 1) 1, Point (- 1) (- 1)) \<in>
     set (loop_pairs (last [Point (- 1) (- 1), Point 1 (- 1), Point 1 1, Point (- 1) 1])
       [Point (- 1) (- 1), Point 1 (- 1), Point 1 1, Point (- 1) 1])"
    by simp
  then show ?thesis
    using no_zero_divisor [OF square_no_consecutive_equal, of "Point 0 0" PosInf]
      square_no_consecutive_equal
    by auto
qed

subsection \<open>Values that the conversions leave as they are, and one that they do not\<close>

lemma to_double_zero [simp]: "to_double 0 = Finite 0"
  by (simp add: to_double_def binary_round_def)

lemma to_float_zero [simp]: "to_float 0 = Finite 0"
  by (simp add: to_float_def binary_round_def)


















end
